theory Spec2Isabelle
  imports Main "HOL-Library.Multiset"
begin

section \<open>Data model of \<open>ldops.cluster\<close>\<close>

text \<open>
  The module \<open>logdevice/ops/ldops/cluster.py\<close> works on values of the Admin API
  (Thrift structures) and on the answers of an Admin API client.  The Thrift types are
  declared outside the module; they are modelled by the fields the module reads.

  \<^item> \<open>LocationScope\<close> is an enumeration declared elsewhere.  The module uses three things
    of it: iteration over the enumeration class (members in definition order), the
    \<open>.value\<close> of a member, and the member \<open>LocationScope.NODE\<close>.  The enumeration is
    therefore a parameter: any type \<open>'sc\<close> of members together with these three items.
  \<^item> The Thrift socket address is opaque to the module and is a type parameter \<open>'ad\<close>.
  \<^item> Node states and maintenance definitions are passed through untouched and are type
    parameters \<open>'ns\<close> and \<open>'mt\<close>.
\<close>

record 'sc LocationScope =
  members :: "'sc list"
  scope_value :: "'sc \<Rightarrow> int"
  NODE :: 'sc

text \<open>\<open>NodeConfig\<close>: the fields that the module reads (\<open>nc.node_index\<close>,
  \<open>nc.data_address\<close>, \<open>nc.name\<close>, \<open>nc.location_per_scope\<close>).  The prefix \<open>nc_\<close> keeps
  the field names apart from those of \<open>NodeID\<close>.\<close>

record ('sc, 'ad) NodeConfig =
  nc_node_index :: int
  nc_data_address :: 'ad
  nc_name :: string
  nc_location_per_scope :: "'sc \<rightharpoonup> string"

text \<open>\<open>NodeID(node_index=..., address=..., name=...)\<close> as built by
  \<open>group_nodes_by_scope\<close>.\<close>

record 'ad NodeID =
  node_index :: int
  address :: 'ad
  name :: string

text \<open>\<open>ldops.types.node.Node(node_index=..., data_addr=..., name=...)\<close>.\<close>

record 'sa Node =
  n_node_index :: int
  n_data_addr :: 'sa
  n_name :: string

text \<open>The request of a filtered node-config query.  The module builds exactly two
  shapes: \<open>NodesFilter(node=NodeID(node_index=i))\<close> and
  \<open>NodesFilter(node=NodeID(name=n))\<close>.\<close>

datatype NodesFilter = NodesFilter_node_index int | NodesFilter_name string

record ('sc, 'ad) NodesConfigResponse =
  nodes :: "('sc, 'ad) NodeConfig list"

record 'ns NodesStateResponse =
  states :: "'ns list"

record 'mt MaintenanceDefinitionResponse =
  resp_maintenances :: "'mt list"

record 'sc TolerableFailureDomain =
  domain :: 'sc

record 'sc ReplicationInfo =
  tolerable_failure_domains :: "'sc TolerableFailureDomain"

text \<open>\<open>ClusterView(nodes_config=..., nodes_state=..., maintenances=...)\<close>: the three
  sequences handed to the constructor.\<close>

record ('sc, 'ad, 'ns, 'mt) ClusterView =
  nodes_config :: "('sc, 'ad) NodeConfig list"
  nodes_state :: "'ns list"
  maintenances :: "'mt list"

subsection \<open>Exceptions\<close>

text \<open>
  What a call of the Admin API client ends with when it does not return a response: an
  exception of \<open>logdevice.admin.exceptions\<close> or of the Thrift transport, or
  \<open>asyncio.CancelledError\<close>.  \<open>isinstance(e, NotSupported)\<close> is the test for the
  first constructor.  \<open>CancelledError\<close> derives from \<open>BaseException\<close> and is not an
  instance of \<open>Exception\<close>; \<open>asyncio.gather(..., return_exceptions=True)\<close> hands it
  back as a result like every other exception.  \<open>isinstance(e, Exception)\<close> is
  \<open>is_Exception\<close>.
\<close>

datatype admin_exception =
    NotSupported string
  | NodeNotReady string
  | TransportError string
  | OtherException string
  | CancelledError

fun is_NotSupported :: "admin_exception \<Rightarrow> bool" where
  "is_NotSupported (NotSupported m) = True"
| "is_NotSupported e = False"

fun is_Exception :: "admin_exception \<Rightarrow> bool" where
  "is_Exception CancelledError = False"
| "is_Exception e = True"

text \<open>
  Exceptions that leave the functions of the module: an exception of a client call,
  passed on unchanged; \<open>ldops.exceptions.NodeNotFoundError\<close>, raised by the module itself;
  the \<open>IndexError\<close> of \<open>x[0]\<close> on an empty tuple; and the \<open>AttributeError\<close> of reading
  a field of a response (\<open>.nodes\<close>, \<open>.states\<close>, \<open>.maintenances\<close>) from an exception
  object, which has no such attribute.  The string names the attribute.
\<close>

datatype exception =
    AdminException admin_exception
  | NodeNotFoundError string
  | IndexError
  | AttributeError string

subsection \<open>The Admin API client\<close>

text \<open>
  The client is an external collaborator.  It is modelled by the outcome of each of the
  four calls the module makes through \<open>ldops.admin_api\<close>: a response, or the exception
  the awaited call raises.  The node-config query takes the optional filter.
\<close>

record ('sc, 'ad, 'ns, 'mt) AdminAPI =
  admin_api_get_nodes_config ::
    "NodesFilter option \<Rightarrow> admin_exception + ('sc, 'ad) NodesConfigResponse"
  admin_api_get_nodes_state :: "admin_exception + 'ns NodesStateResponse"
  admin_api_get_maintenances :: "admin_exception + 'mt MaintenanceDefinitionResponse"
  admin_api_get_replication_info :: "admin_exception + 'sc ReplicationInfo"

section \<open>Node lookup\<close>

text \<open>\<open>_get_node_by_node_config\<close>.  \<open>SocketAddress.from_thrift\<close> is defined outside the
  module and is the parameter \<open>from_thrift\<close>.\<close>

definition get_node_by_node_config ::
  "('ad \<Rightarrow> 'sa) \<Rightarrow> ('sc, 'ad) NodeConfig \<Rightarrow> 'sa Node" where
  "get_node_by_node_config from_thrift nc =
     \<lparr>n_node_index = nc_node_index nc,
      n_data_addr = from_thrift (nc_data_address nc),
      n_name = nc_name nc\<rparr>"

text \<open>Decimal text of an integer, as an f-string prints it.\<close>

fun str_nat :: "nat \<Rightarrow> string" where
  "str_nat n =
     (if n < 10 then [char_of (48 + n)]
      else str_nat (n div 10) @ [char_of (48 + n mod 10)])"

definition str_int :: "int \<Rightarrow> string" where
  "str_int i = (if i < 0 then CHR ''-'' # str_nat (nat (- i)) else str_nat (nat i))"

definition not_found_by_index :: "int \<Rightarrow> string" where
  "not_found_by_index i =
     ''Node not found: node_index='' @ [CHR 0x60] @ str_int i @ [CHR 0x27]"

definition not_found_by_name :: "string \<Rightarrow> string" where
  "not_found_by_name n =
     ''Node not found: name='' @ [CHR 0x60] @ n @ [CHR 0x27]"

text \<open>
  \<open>get_node_by_node_index\<close>: the awaited query may raise; \<open>if not resp.nodes\<close> raises
  \<open>NodeNotFoundError\<close>; otherwise the node of \<open>resp.nodes[0]\<close> is returned.
\<close>

definition get_node_by_node_index ::
  "('ad \<Rightarrow> 'sa) \<Rightarrow> ('sc, 'ad, 'ns, 'mt) AdminAPI \<Rightarrow> int \<Rightarrow> exception + 'sa Node" where
  "get_node_by_node_index from_thrift client i =
     (case admin_api_get_nodes_config client (Some (NodesFilter_node_index i)) of
        Inl e \<Rightarrow> Inl (AdminException e)
      | Inr resp \<Rightarrow>
          (case nodes resp of
             [] \<Rightarrow> Inl (NodeNotFoundError (not_found_by_index i))
           | nc # rest \<Rightarrow> Inr (get_node_by_node_config from_thrift nc)))"

definition get_node_by_name ::
  "('ad \<Rightarrow> 'sa) \<Rightarrow> ('sc, 'ad, 'ns, 'mt) AdminAPI \<Rightarrow> string \<Rightarrow> exception + 'sa Node" where
  "get_node_by_name from_thrift client n =
     (case admin_api_get_nodes_config client (Some (NodesFilter_name n)) of
        Inl e \<Rightarrow> Inl (AdminException e)
      | Inr resp \<Rightarrow>
          (case nodes resp of
             [] \<Rightarrow> Inl (NodeNotFoundError (not_found_by_name n))
           | nc # rest \<Rightarrow> Inr (get_node_by_node_config from_thrift nc)))"

section \<open>Cluster view\<close>

text \<open>
  \<open>get_cluster_view\<close>.  \<open>asyncio.gather(..., return_exceptions=True)\<close> hands back, for
  each of the three queries, its response or the exception object it ended with.

  \<open>raised_Exception resp\<close> is the test \<open>isinstance(resp, Exception)\<close> together with the
  exception that \<open>raise resp\<close> then raises.  \<open>attribute a resp field\<close> is the
  attribute access \<open>resp.a\<close>: the field of a response, \<open>AttributeError\<close> on an exception
  object.
\<close>

definition raised_Exception :: "admin_exception + 'r \<Rightarrow> admin_exception option" where
  "raised_Exception resp =
     (case resp of
        Inl e \<Rightarrow> if is_Exception e then Some e else None
      | Inr r \<Rightarrow> None)"

definition attribute :: "string \<Rightarrow> admin_exception + 'r \<Rightarrow> ('r \<Rightarrow> 'v) \<Rightarrow> exception + 'v" where
  "attribute a resp field =
     (case resp of
        Inl e \<Rightarrow> Inl (AttributeError a)
      | Inr r \<Rightarrow> Inr (field r))"

text \<open>
  Lines 161 to 169: the maintenance result is looked at first.  \<open>NotSupported\<close> gives the
  empty list; another instance of \<open>Exception\<close> is raised; anything else is taken for a
  response and its \<open>maintenances\<close> are read.
\<close>

definition maintenances_of ::
  "admin_exception + 'mt MaintenanceDefinitionResponse \<Rightarrow> exception + 'mt list" where
  "maintenances_of maintenances_resp =
     (if (case maintenances_resp of Inl e \<Rightarrow> is_NotSupported e | Inr r \<Rightarrow> False) then Inr []
      else case raised_Exception maintenances_resp of
             Some e \<Rightarrow> Inl (AdminException e)
           | None \<Rightarrow> attribute ''maintenances'' maintenances_resp resp_maintenances)"

text \<open>
  Lines 171 to 183: the node-config result and then the node-state result are raised
  when they are instances of \<open>Exception\<close>; otherwise the arguments of \<open>ClusterView\<close>
  are evaluated from left to right, \<open>nodes_config_resp.nodes\<close> before
  \<open>nodes_state_resp.states\<close>.
\<close>

definition get_cluster_view ::
  "('sc, 'ad, 'ns, 'mt) AdminAPI \<Rightarrow> exception + ('sc, 'ad, 'ns, 'mt) ClusterView" where
  "get_cluster_view client =
     (let nodes_config_resp = admin_api_get_nodes_config client None;
          nodes_state_resp = admin_api_get_nodes_state client;
          maintenances_resp = admin_api_get_maintenances client
      in case maintenances_of maintenances_resp of
           Inl e \<Rightarrow> Inl e
         | Inr ms \<Rightarrow>
             (case raised_Exception nodes_config_resp of
                Some e \<Rightarrow> Inl (AdminException e)
              | None \<Rightarrow>
                  (case raised_Exception nodes_state_resp of
                     Some e \<Rightarrow> Inl (AdminException e)
                   | None \<Rightarrow>
                       (case attribute ''nodes'' nodes_config_resp nodes of
                          Inl e \<Rightarrow> Inl e
                        | Inr ncs \<Rightarrow>
                            (case attribute ''states'' nodes_state_resp states of
                               Inl e \<Rightarrow> Inl e
                             | Inr sts \<Rightarrow>
                                 Inr \<lparr>nodes_config = ncs,
                                      nodes_state = sts,
                                      maintenances = ms\<rparr>)))))"

text \<open>The maintenance query ended with an exception that is not \<open>NotSupported\<close>: the
  test of line 161 fails on an exception object.\<close>

definition maintenance_hard_failure :: "('sc, 'ad, 'ns, 'mt) AdminAPI \<Rightarrow> bool" where
  "maintenance_hard_failure client =
     (case admin_api_get_maintenances client of
        Inl e \<Rightarrow> \<not> is_NotSupported e
      | Inr r \<Rightarrow> False)"

section \<open>Grouping nodes by failure domain\<close>

subsection \<open>Python containers\<close>

text \<open>
  A Python \<open>set\<close> is modelled by the duplicate-free list of its elements in the order of
  their first insertion.  Python does not fix the order in which a set is iterated (it
  depends on the hashes); the iteration order is therefore a parameter \<open>iter\<close> of the
  model, a function that rearranges the elements.  \<open>iteration_order iter\<close> says that
  \<open>iter\<close> yields every element exactly as often as it is stored.
\<close>

definition set_add :: "'a \<Rightarrow> 'a list \<Rightarrow> 'a list" where
  "set_add x s = (if x \<in> set s then s else s @ [x])"

definition iteration_order :: "('a list \<Rightarrow> 'a list) \<Rightarrow> bool" where
  "iteration_order iter \<longleftrightarrow> (\<forall>s. mset (iter s) = mset s)"

text \<open>
  \<open>defaultdict(set)\<close> is an association list in insertion order of the keys, which is
  the order in which a Python dictionary is iterated.  \<open>ret[k].add(x)\<close> adds \<open>x\<close> to the
  set stored under \<open>k\<close>; a missing key is first entered, at the end, with the empty set.
\<close>

fun defaultdict_add :: "'k \<Rightarrow> 'v \<Rightarrow> ('k \<times> 'v list) list \<Rightarrow> ('k \<times> 'v list) list" where
  "defaultdict_add k x [] = [(k, set_add x [])]"
| "defaultdict_add k x ((k', s) # ret) =
     (if k = k' then (k', set_add x s) # ret else (k', s) # defaultdict_add k x ret)"

text \<open>\<open>d.get(k, dflt)\<close>.\<close>

definition dict_get :: "('k \<rightharpoonup> 'v) \<Rightarrow> 'k \<Rightarrow> 'v \<Rightarrow> 'v" where
  "dict_get d k dflt = (case d k of None \<Rightarrow> dflt | Some v \<Rightarrow> v)"

subsection \<open>The location key\<close>

text \<open>
  \<open>sorted(LocationScope, key=lambda x: x.value, reverse=True)\<close>: Python's sort is
  stable, and with \<open>reverse=True\<close> it reverses the list, sorts it ascending and reverses
  the result.
\<close>

definition sorted_scopes :: "'sc LocationScope \<Rightarrow> 'sc list" where
  "sorted_scopes E = rev (sort_key (scope_value E) (rev (members E)))"

text \<open>The key under which a node is stored: a tuple of labels, or the node index when
  the scope is \<open>NODE\<close>.\<close>

datatype location = Labels "string list" | Index int

definition location_of :: "'sc LocationScope \<Rightarrow> 'sc \<Rightarrow> ('sc, 'ad) NodeConfig \<Rightarrow> location" where
  "location_of E scope node_config =
     (if scope \<noteq> NODE E then
        Labels (map (\<lambda>scope_kind. dict_get (nc_location_per_scope node_config) scope_kind '''')
                  (filter (\<lambda>scope_kind. scope_value E scope_kind \<ge> scope_value E scope)
                     (sorted_scopes E)))
      else Index (nc_node_index node_config))"

definition node_id_of :: "('sc, 'ad) NodeConfig \<Rightarrow> 'ad NodeID" where
  "node_id_of node_config =
     \<lparr>node_index = nc_node_index node_config,
      address = nc_data_address node_config,
      name = nc_name node_config\<rparr>"

subsection \<open>The loop and the final sort\<close>

text \<open>The \<open>for\<close> loop over \<open>node_configs\<close>, with \<open>ret\<close> as the state.\<close>

fun accumulate ::
  "'sc LocationScope \<Rightarrow> 'sc \<Rightarrow> ('sc, 'ad) NodeConfig list \<Rightarrow>
   (location \<times> 'ad NodeID list) list \<Rightarrow> (location \<times> 'ad NodeID list) list" where
  "accumulate E scope [] ret = ret"
| "accumulate E scope (node_config # node_configs) ret =
     accumulate E scope node_configs
       (defaultdict_add (location_of E scope node_config) (node_id_of node_config) ret)"

text \<open>
  The returned value: every stored set is iterated and sorted by \<open>node_index\<close>; the
  resulting tuples, in the order of the dictionary, are sorted by the \<open>node_index\<close> of
  their first element.  Both sorts are stable.  \<open>x[0]\<close> raises \<open>IndexError\<close> on an empty
  tuple; the keys are computed for all tuples before any comparison.
\<close>

definition sorted_groups ::
  "('ad NodeID list \<Rightarrow> 'ad NodeID list) \<Rightarrow> (location \<times> 'ad NodeID list) list \<Rightarrow>
   exception + 'ad NodeID list list" where
  "sorted_groups iter ret =
     (let groups = map (\<lambda>(k, v). sort_key node_index (iter v)) ret
      in if [] \<in> set groups then Inl IndexError
         else Inr (sort_key (\<lambda>x. node_index (hd x)) groups))"

text \<open>The body of \<open>group_nodes_by_scope\<close> once the node configurations and the scope
  are at hand.\<close>

definition group_nodes ::
  "'sc LocationScope \<Rightarrow> ('ad NodeID list \<Rightarrow> 'ad NodeID list) \<Rightarrow> 'sc \<Rightarrow>
   ('sc, 'ad) NodeConfig list \<Rightarrow> exception + 'ad NodeID list list" where
  "group_nodes E iter scope node_configs =
     sorted_groups iter (accumulate E scope node_configs [])"

text \<open>
  \<open>group_nodes_by_scope\<close>: an argument that is \<open>None\<close> is fetched from the client, the
  node configurations first; a failing fetch raises.
\<close>

definition fetch_node_configs ::
  "('sc, 'ad, 'ns, 'mt) AdminAPI \<Rightarrow> ('sc, 'ad) NodeConfig list option \<Rightarrow>
   exception + ('sc, 'ad) NodeConfig list" where
  "fetch_node_configs client node_configs =
     (case node_configs of
        None \<Rightarrow> (case admin_api_get_nodes_config client None of
                    Inl e \<Rightarrow> Inl (AdminException e)
                  | Inr response \<Rightarrow> Inr (nodes response))
      | Some ncs \<Rightarrow> Inr ncs)"

definition fetch_replication_info ::
  "('sc, 'ad, 'ns, 'mt) AdminAPI \<Rightarrow> 'sc ReplicationInfo option \<Rightarrow>
   exception + 'sc ReplicationInfo" where
  "fetch_replication_info client replication_info =
     (case replication_info of
        None \<Rightarrow> (case admin_api_get_replication_info client of
                    Inl e \<Rightarrow> Inl (AdminException e)
                  | Inr info \<Rightarrow> Inr info)
      | Some info \<Rightarrow> Inr info)"

definition group_nodes_by_scope ::
  "'sc LocationScope \<Rightarrow> ('ad NodeID list \<Rightarrow> 'ad NodeID list) \<Rightarrow>
   ('sc, 'ad, 'ns, 'mt) AdminAPI \<Rightarrow> ('sc, 'ad) NodeConfig list option \<Rightarrow>
   'sc ReplicationInfo option \<Rightarrow> exception + 'ad NodeID list list" where
  "group_nodes_by_scope E iter client node_configs replication_info =
     (case fetch_node_configs client node_configs of
        Inl e \<Rightarrow> Inl e
      | Inr ncs \<Rightarrow>
          (case fetch_replication_info client replication_info of
             Inl e \<Rightarrow> Inl e
           | Inr info \<Rightarrow>
               group_nodes E iter (domain (tolerable_failure_domains info)) ncs))"

section \<open>Example inputs\<close>

text \<open>A client whose node-config query and maintenance query both fail, with different
  errors.\<close>

definition client_config_and_maintenance_fail :: "(nat, nat, nat, nat) AdminAPI" where
  "client_config_and_maintenance_fail =
     \<lparr>admin_api_get_nodes_config = (\<lambda>req. Inl (TransportError ''nodes config'')),
      admin_api_get_nodes_state = Inr \<lparr>states = []\<rparr>,
      admin_api_get_maintenances = Inl (NodeNotReady ''maintenances''),
      admin_api_get_replication_info = Inr \<lparr>tolerable_failure_domains = \<lparr>domain = 0\<rparr>\<rparr>\<rparr>"

text \<open>A cluster of one node that has no maintenance manager.\<close>

definition node7 :: "(nat, nat) NodeConfig" where
  "node7 = \<lparr>nc_node_index = 7, nc_data_address = 4440, nc_name = ''n7'',
            nc_location_per_scope = Map.empty\<rparr>"

definition client_old_cluster :: "(nat, nat, nat, nat) AdminAPI" where
  "client_old_cluster =
     \<lparr>admin_api_get_nodes_config =
        (\<lambda>req. case req of
                 None \<Rightarrow> Inr \<lparr>nodes = [node7]\<rparr>
               | Some (NodesFilter_node_index i) \<Rightarrow> Inr \<lparr>nodes = (if i = 7 then [node7] else [])\<rparr>
               | Some (NodesFilter_name n) \<Rightarrow> Inr \<lparr>nodes = (if n = ''n7'' then [node7] else [])\<rparr>),
      admin_api_get_nodes_state = Inr \<lparr>states = [70]\<rparr>,
      admin_api_get_maintenances = Inl (NotSupported ''no maintenance manager''),
      admin_api_get_replication_info = Inr \<lparr>tolerable_failure_domains = \<lparr>domain = 0\<rparr>\<rparr>\<rparr>"

text \<open>The same cluster when the node-config query, respectively the node-state query,
  fails and the maintenance query is answered as before.\<close>

definition client_config_fails :: "(nat, nat, nat, nat) AdminAPI" where
  "client_config_fails =
     client_old_cluster
       \<lparr>admin_api_get_nodes_config := (\<lambda>req. Inl (TransportError ''nodes config''))\<rparr>"

definition client_state_fails :: "(nat, nat, nat, nat) AdminAPI" where
  "client_state_fails =
     client_old_cluster
       \<lparr>admin_api_get_nodes_state := Inl (TransportError ''nodes state'')\<rparr>"

text \<open>The same cluster when the maintenance query ends with \<open>asyncio.CancelledError\<close>
  and the node-config query fails with a transport error.\<close>

definition client_maintenance_cancelled :: "(nat, nat, nat, nat) AdminAPI" where
  "client_maintenance_cancelled =
     client_old_cluster
       \<lparr>admin_api_get_nodes_config := (\<lambda>req. Inl (TransportError ''nodes config'')),
        admin_api_get_maintenances := Inl CancelledError\<rparr>"

text \<open>A cluster of two nodes; a filtered query returns the nodes that match the filter.\<close>

definition node9 :: "(nat, nat) NodeConfig" where
  "node9 = \<lparr>nc_node_index = 9, nc_data_address = 4441, nc_name = ''n9'',
            nc_location_per_scope = Map.empty\<rparr>"

definition client_two_nodes :: "(nat, nat, nat, nat) AdminAPI" where
  "client_two_nodes =
     \<lparr>admin_api_get_nodes_config =
        (\<lambda>req. case req of
                 None \<Rightarrow> Inr \<lparr>nodes = [node7, node9]\<rparr>
               | Some (NodesFilter_node_index i) \<Rightarrow>
                   Inr \<lparr>nodes = filter (\<lambda>nc. nc_node_index nc = i) [node7, node9]\<rparr>
               | Some (NodesFilter_name n) \<Rightarrow>
                   Inr \<lparr>nodes = filter (\<lambda>nc. nc_name nc = n) [node7, node9]\<rparr>),
      admin_api_get_nodes_state = Inr \<lparr>states = [70, 90]\<rparr>,
      admin_api_get_maintenances = Inr \<lparr>resp_maintenances = []\<rparr>,
      admin_api_get_replication_info = Inr \<lparr>tolerable_failure_domains = \<lparr>domain = 0\<rparr>\<rparr>\<rparr>"

section \<open>Notions used in the proofs about grouping\<close>

text \<open>
  The content of the dictionary \<open>ret\<close> as a set of pairs of a key and a member stored
  under it; the shape every dictionary built by the loop has (no key twice, no stored set
  empty, no member twice in a stored set); what an emitted group is with respect to such
  a content; and contents in which no member is stored under two keys.
\<close>

definition entries :: "('k \<times> 'v list) list \<Rightarrow> ('k \<times> 'v) set" where
  "entries ret = {(k, x). \<exists>v. (k, v) \<in> set ret \<and> x \<in> set v}"

definition wf_dict :: "('k \<times> 'v list) list \<Rightarrow> bool" where
  "wf_dict ret \<longleftrightarrow> distinct (map fst ret) \<and> (\<forall>(k, v) \<in> set ret. v \<noteq> [] \<and> distinct v)"

definition is_group :: "(location \<times> 'ad NodeID) set \<Rightarrow> 'ad NodeID list \<Rightarrow> bool" where
  "is_group S g \<longleftrightarrow>
     g \<noteq> [] \<and> distinct g \<and> sorted (map node_index g) \<and> (\<exists>k. set g = {x. (k, x) \<in> S})"

definition single_key :: "('k \<times> 'v) set \<Rightarrow> bool" where
  "single_key S \<longleftrightarrow> (\<forall>k k' x. (k, x) \<in> S \<longrightarrow> (k', x) \<in> S \<longrightarrow> k = k')"

section \<open>The location key in the words of the specification\<close>

text \<open>
  The scope kinds that contribute a label to a key, in the order of the key: the
  generator of lines 206 to 212 without the lookup of the label.
\<close>

definition kept_levels :: "'sc LocationScope \<Rightarrow> 'sc \<Rightarrow> 'sc list" where
  "kept_levels E scope =
     filter (\<lambda>scope_kind. scope_value E scope_kind \<ge> scope_value E scope) (sorted_scopes E)"

text \<open>
  The specification's description of the key, written after its words and not after the
  code: enumerate all defined levels, keep those whose value is at least the value of the
  target scope, order them from coarsest (largest value) to finest, and take the node's
  label at each kept level, the empty string where the node has none.  Levels of equal
  value, about which the specification says nothing, stay in the order of the
  enumeration.
\<close>

definition spec_location_key :: "'sc LocationScope \<Rightarrow> 'sc \<Rightarrow> ('sc, 'ad) NodeConfig \<Rightarrow> string list" where
  "spec_location_key E scope node_config =
     (let kept = filter (\<lambda>level. scope_value E level \<ge> scope_value E scope) (members E);
          ordered = rev (sort_key (scope_value E) (rev kept))
      in map (\<lambda>level. case nc_location_per_scope node_config level of
                         Some label \<Rightarrow> label
                       | None \<Rightarrow> '''') ordered)"

section \<open>Example inputs for the grouping\<close>

text \<open>A node configuration with a label at the level \<open>RACK\<close> and a label at the level
  \<open>DC\<close>, and no other label.\<close>

definition located ::
  "'sc \<Rightarrow> 'sc \<Rightarrow> string \<Rightarrow> string \<Rightarrow> int \<Rightarrow> 'ad \<Rightarrow> string \<Rightarrow> ('sc, 'ad) NodeConfig" where
  "located RACK DC rack dc i a n =
     \<lparr>nc_node_index = i, nc_data_address = a, nc_name = n,
      nc_location_per_scope = [RACK \<mapsto> rack, DC \<mapsto> dc]\<rparr>"

text \<open>An enumeration of three scopes in which the data centre is the only level coarser
  than the rack.\<close>

datatype scenario_scope = S_NODE | S_RACK | S_DC

fun scenario_value :: "scenario_scope \<Rightarrow> int" where
  "scenario_value S_NODE = 0"
| "scenario_value S_RACK = 1"
| "scenario_value S_DC = 2"

definition scenario_scopes :: "scenario_scope LocationScope" where
  "scenario_scopes =
     \<lparr>members = [S_NODE, S_RACK, S_DC], scope_value = scenario_value, NODE = S_NODE\<rparr>"

text \<open>The four nodes of the scenario of the specification.\<close>

definition node_A :: "(scenario_scope, string) NodeConfig" where
  "node_A = located S_RACK S_DC ''r1'' ''d1'' 0 ''10.0.0.1'' ''A''"

definition node_B :: "(scenario_scope, string) NodeConfig" where
  "node_B = located S_RACK S_DC ''r1'' ''d1'' 1 ''10.0.0.2'' ''B''"

definition node_C :: "(scenario_scope, string) NodeConfig" where
  "node_C = located S_RACK S_DC ''r2'' ''d1'' 2 ''10.0.0.3'' ''C''"

definition node_D :: "(scenario_scope, string) NodeConfig" where
  "node_D = located S_RACK S_DC ''r3'' ''d2'' 3 ''10.0.0.4'' ''D''"

definition scope_info :: "'sc \<Rightarrow> 'sc ReplicationInfo" where
  "scope_info scope = \<lparr>tolerable_failure_domains = \<lparr>domain = scope\<rparr>\<rparr>"

text \<open>A client that lists the four nodes in another order and reports the rack as the
  failure domain.\<close>

definition scenario_client :: "(scenario_scope, string, nat, nat) AdminAPI" where
  "scenario_client =
     \<lparr>admin_api_get_nodes_config = (\<lambda>req. Inr \<lparr>nodes = [node_D, node_B, node_A, node_C]\<rparr>),
      admin_api_get_nodes_state = Inr \<lparr>states = []\<rparr>,
      admin_api_get_maintenances = Inr \<lparr>resp_maintenances = []\<rparr>,
      admin_api_get_replication_info = Inr (scope_info S_RACK)\<rparr>"

text \<open>Two node configurations with the same node index and different names in the same
  rack, and a configuration with the identity of the first in another rack.\<close>

definition twin_a :: "(scenario_scope, string) NodeConfig" where
  "twin_a = located S_RACK S_DC ''r1'' ''d1'' 0 ''10.0.0.1'' ''a''"

definition twin_b :: "(scenario_scope, string) NodeConfig" where
  "twin_b = located S_RACK S_DC ''r1'' ''d1'' 0 ''10.0.0.1'' ''b''"

definition moved_a :: "(scenario_scope, string) NodeConfig" where
  "moved_a = located S_RACK S_DC ''r2'' ''d1'' 0 ''10.0.0.1'' ''a''"

section \<open>Properties of the cluster view\<close>

text \<open>
  C2.  When the maintenance query fails with \<open>NotSupported\<close> and the node-config and
  node-state queries succeed, \<open>get_cluster_view\<close> does not fail: it returns the view
  whose maintenance list is empty and whose node configurations and node states are
  those of the two successful responses.
\<close>

theorem get_cluster_view_maintenances_unsupported:
  assumes "admin_api_get_maintenances client = Inl e" and "is_NotSupported e"
    and "admin_api_get_nodes_config client None = Inr c"
    and "admin_api_get_nodes_state client = Inr s"
  shows "get_cluster_view client =
           Inr \<lparr>nodes_config = nodes c, nodes_state = states s, maintenances = []\<rparr>"
  using assms
  by (simp add: get_cluster_view_def maintenances_of_def raised_Exception_def attribute_def)

theorem get_cluster_view_maintenances_unsupported_witness:
  "get_cluster_view client_old_cluster =
     Inr \<lparr>nodes_config = [node7], nodes_state = [70], maintenances = []\<rparr>"
  using get_cluster_view_maintenances_unsupported
          [of client_old_cluster "NotSupported ''no maintenance manager''"
              "\<lparr>nodes = [node7]\<rparr>" "\<lparr>states = [70]\<rparr>"]
  by (simp add: client_old_cluster_def)

text \<open>
  C3, as stated, fails: when the node-config query fails and the maintenance query fails
  with another error that is not \<open>NotSupported\<close>, the error that leaves
  \<open>get_cluster_view\<close> is the one of the maintenance query, not the one of the
  node-config query.
\<close>

theorem get_cluster_view_config_error_counterexample:
  "admin_api_get_nodes_config client_config_and_maintenance_fail None
     = Inl (TransportError ''nodes config'')
   \<and> get_cluster_view client_config_and_maintenance_fail
     = Inl (AdminException (NodeNotReady ''maintenances''))
   \<and> get_cluster_view client_config_and_maintenance_fail
     \<noteq> Inl (AdminException (TransportError ''nodes config''))"
  by (simp add: client_config_and_maintenance_fail_def get_cluster_view_def
        maintenances_of_def raised_Exception_def)

text \<open>
  C3, amended.  When the node-config query or the node-state query ends with an
  exception, \<open>get_cluster_view\<close> returns no view at all: it fails.  When that exception
  is an instance of \<open>Exception\<close> and the maintenance query returned or failed with
  \<open>NotSupported\<close>, the error that leaves \<open>get_cluster_view\<close> is the one of the
  node-config query if that query failed, and the one of the node-state query if the
  node-config query returned.
\<close>

theorem get_cluster_view_hard_failure:
  assumes "admin_api_get_nodes_config client None = Inl e
           \<or> admin_api_get_nodes_state client = Inl e"
  shows "(\<exists>e'. get_cluster_view client = Inl e') \<and>
         (is_Exception e \<longrightarrow> \<not> maintenance_hard_failure client \<longrightarrow>
            admin_api_get_nodes_config client None = Inl e \<longrightarrow>
            get_cluster_view client = Inl (AdminException e)) \<and>
         (is_Exception e \<longrightarrow> \<not> maintenance_hard_failure client \<longrightarrow>
            (\<exists>c. admin_api_get_nodes_config client None = Inr c) \<longrightarrow>
            admin_api_get_nodes_state client = Inl e \<longrightarrow>
            get_cluster_view client = Inl (AdminException e))"
proof -
  have fails: "\<exists>e'. get_cluster_view client = Inl e'"
    using assms
    by (auto simp: get_cluster_view_def raised_Exception_def attribute_def Let_def
             split: sum.splits option.splits)
  have soft: "maintenances_of (admin_api_get_maintenances client) = Inr []
              \<or> (\<exists>r. maintenances_of (admin_api_get_maintenances client) = Inr r)"
    if "\<not> maintenance_hard_failure client"
    using that
    by (auto simp: maintenance_hard_failure_def maintenances_of_def raised_Exception_def
          attribute_def split: sum.splits)
  have config: "get_cluster_view client = Inl (AdminException e)"
    if "is_Exception e" "\<not> maintenance_hard_failure client"
       "admin_api_get_nodes_config client None = Inl e"
    using soft [OF that(2)] that(1,3)
    by (auto simp: get_cluster_view_def raised_Exception_def)
  have state: "get_cluster_view client = Inl (AdminException e)"
    if "is_Exception e" "\<not> maintenance_hard_failure client"
       "admin_api_get_nodes_config client None = Inr c"
       "admin_api_get_nodes_state client = Inl e" for c
    using soft [OF that(2)] that(1,3,4)
    by (auto simp: get_cluster_view_def raised_Exception_def)
  from fails config state show ?thesis by blast
qed

theorem get_cluster_view_hard_failure_witness:
  "get_cluster_view client_config_fails
     = Inl (AdminException (TransportError ''nodes config'')) \<and>
   get_cluster_view client_state_fails
     = Inl (AdminException (TransportError ''nodes state''))"
proof -
  have m: "\<not> maintenance_hard_failure client_config_fails"
          "\<not> maintenance_hard_failure client_state_fails"
    by (simp_all add: maintenance_hard_failure_def client_config_fails_def
          client_state_fails_def client_old_cluster_def)
  have c: "admin_api_get_nodes_config client_config_fails None
             = Inl (TransportError ''nodes config'')"
    by (simp add: client_config_fails_def)
  have s: "admin_api_get_nodes_config client_state_fails None = Inr \<lparr>nodes = [node7]\<rparr>"
          "admin_api_get_nodes_state client_state_fails = Inl (TransportError ''nodes state'')"
    by (simp_all add: client_state_fails_def client_old_cluster_def)
  have e: "is_Exception (TransportError ''nodes config'')"
          "is_Exception (TransportError ''nodes state'')"
    by simp_all
  from get_cluster_view_hard_failure [of client_config_fails "TransportError ''nodes config''"]
       m(1) c e(1)
  have 1: "get_cluster_view client_config_fails
             = Inl (AdminException (TransportError ''nodes config''))"
    by simp
  from get_cluster_view_hard_failure [of client_state_fails "TransportError ''nodes state''"]
       m(2) s e(2)
  have 2: "get_cluster_view client_state_fails
             = Inl (AdminException (TransportError ''nodes state''))"
    by simp
  from 1 2 show ?thesis by simp
qed

text \<open>
  The maintenance result is raised before the other two results are looked at, when it
  is an instance of \<open>Exception\<close> other than \<open>NotSupported\<close>.
\<close>

lemma get_cluster_view_raises_maintenance_Exception:
  assumes "admin_api_get_maintenances client = Inl e"
    and "\<not> is_NotSupported e" and "is_Exception e"
  shows "get_cluster_view client = Inl (AdminException e)"
  using assms by (simp add: get_cluster_view_def maintenances_of_def raised_Exception_def)

text \<open>
  C10 says that a maintenance query failing with any exception other than
  \<open>NotSupported\<close>, together with a failing node-config query, makes
  \<open>get_cluster_view\<close> raise the maintenance exception.  The code does so for instances
  of \<open>Exception\<close> only.  When the maintenance query ends with
  \<open>asyncio.CancelledError\<close>, neither test of lines 161 and 165 holds, line 169 reads
  \<open>.maintenances\<close> of the exception object, and what leaves \<open>get_cluster_view\<close> is an
  \<open>AttributeError\<close>, not the maintenance exception.
\<close>

theorem get_cluster_view_cancelled_maintenance:
  "admin_api_get_maintenances client_maintenance_cancelled = Inl CancelledError \<and>
   \<not> is_NotSupported CancelledError \<and>
   admin_api_get_nodes_config client_maintenance_cancelled None
     = Inl (TransportError ''nodes config'') \<and>
   get_cluster_view client_maintenance_cancelled = Inl (AttributeError ''maintenances'') \<and>
   get_cluster_view client_maintenance_cancelled \<noteq> Inl (AdminException CancelledError)"
  by (simp add: client_maintenance_cancelled_def client_old_cluster_def get_cluster_view_def
        maintenances_of_def raised_Exception_def attribute_def)

section \<open>Properties of the node lookup\<close>

text \<open>
  C8.  \<open>get_node_by_node_index\<close> and \<open>get_node_by_name\<close> fail with \<open>NodeNotFoundError\<close>
  exactly when the filtered node-config query returns an empty list of nodes.  When the
  list is not empty they raise nothing and return the node built from the first record
  of the list: its index, its name and its converted data address.
\<close>

theorem get_node_not_found_iff:
  "((\<exists>m. get_node_by_node_index from_thrift client i = Inl (NodeNotFoundError m)) \<longleftrightarrow>
      (\<exists>resp. admin_api_get_nodes_config client (Some (NodesFilter_node_index i)) = Inr resp
              \<and> nodes resp = [])) \<and>
   ((\<exists>m. get_node_by_name from_thrift client n = Inl (NodeNotFoundError m)) \<longleftrightarrow>
      (\<exists>resp. admin_api_get_nodes_config client (Some (NodesFilter_name n)) = Inr resp
              \<and> nodes resp = [])) \<and>
   (\<forall>resp nc rest.
      admin_api_get_nodes_config client (Some (NodesFilter_node_index i)) = Inr resp
      \<longrightarrow> nodes resp = nc # rest \<longrightarrow>
      get_node_by_node_index from_thrift client i
        = Inr \<lparr>n_node_index = nc_node_index nc,
               n_data_addr = from_thrift (nc_data_address nc),
               n_name = nc_name nc\<rparr>) \<and>
   (\<forall>resp nc rest.
      admin_api_get_nodes_config client (Some (NodesFilter_name n)) = Inr resp
      \<longrightarrow> nodes resp = nc # rest \<longrightarrow>
      get_node_by_name from_thrift client n
        = Inr \<lparr>n_node_index = nc_node_index nc,
               n_data_addr = from_thrift (nc_data_address nc),
               n_name = nc_name nc\<rparr>)"
  by (auto simp: get_node_by_node_index_def get_node_by_name_def get_node_by_node_config_def
           split: sum.splits list.splits)

theorem get_node_not_found_iff_witness:
  "get_node_by_node_index Suc client_two_nodes 7
     = Inr \<lparr>n_node_index = 7, n_data_addr = 4441, n_name = ''n7''\<rparr> \<and>
   get_node_by_name Suc client_two_nodes ''n9''
     = Inr \<lparr>n_node_index = 9, n_data_addr = 4442, n_name = ''n9''\<rparr> \<and>
   (\<exists>m. get_node_by_node_index Suc client_two_nodes 8 = Inl (NodeNotFoundError m)) \<and>
   (\<exists>m. get_node_by_name Suc client_two_nodes ''n8'' = Inl (NodeNotFoundError m))"
proof -
  have q7: "admin_api_get_nodes_config client_two_nodes (Some (NodesFilter_node_index 7))
              = Inr \<lparr>nodes = [node7]\<rparr>"
    and qn9: "admin_api_get_nodes_config client_two_nodes (Some (NodesFilter_name ''n9''))
              = Inr \<lparr>nodes = [node9]\<rparr>"
    and q8: "admin_api_get_nodes_config client_two_nodes (Some (NodesFilter_node_index 8))
              = Inr \<lparr>nodes = []\<rparr>"
    and qn8: "admin_api_get_nodes_config client_two_nodes (Some (NodesFilter_name ''n8''))
              = Inr \<lparr>nodes = []\<rparr>"
    by (simp_all add: client_two_nodes_def node7_def node9_def)
  from get_node_not_found_iff [of Suc client_two_nodes 7 "''n9''"] q7 qn9
  have found: "get_node_by_node_index Suc client_two_nodes 7
                 = Inr \<lparr>n_node_index = 7, n_data_addr = 4441, n_name = ''n7''\<rparr>
               \<and> get_node_by_name Suc client_two_nodes ''n9''
                 = Inr \<lparr>n_node_index = 9, n_data_addr = 4442, n_name = ''n9''\<rparr>"
    by (simp add: node7_def node9_def)
  from get_node_not_found_iff [of Suc client_two_nodes 8 "''n8''"] q8 qn8
  have missing: "(\<exists>m. get_node_by_node_index Suc client_two_nodes 8 = Inl (NodeNotFoundError m))
               \<and> (\<exists>m. get_node_by_name Suc client_two_nodes ''n8'' = Inl (NodeNotFoundError m))"
    by simp
  from found missing show ?thesis by simp
qed

section \<open>Properties of the accumulation\<close>

lemma entries_Nil [simp]: "entries [] = {}"
  by (simp add: entries_def)

lemma entries_Cons: "entries ((k, v) # ret) = Pair k ` set v \<union> entries ret"
  by (auto simp: entries_def)

lemma set_set_add [simp]: "set (set_add x s) = insert x (set s)"
  by (auto simp: set_add_def)

lemma distinct_set_add [simp]: "distinct (set_add x s) = distinct s"
  by (auto simp: set_add_def)

lemma set_add_not_Nil [simp]: "set_add x s \<noteq> []"
  by (auto simp: set_add_def)

lemma keys_defaultdict_add:
  "map fst (defaultdict_add k x ret) =
     (if k \<in> fst ` set ret then map fst ret else map fst ret @ [k])"
  by (induction ret) (force simp: image_iff)+

lemma entries_defaultdict_add:
  "entries (defaultdict_add k x ret) = insert (k, x) (entries ret)"
  by (induction ret) (auto simp: entries_Cons split: if_splits)

lemma wf_defaultdict_add: "wf_dict ret \<Longrightarrow> wf_dict (defaultdict_add k x ret)"
proof (induction ret)
  case Nil
  then show ?case by (simp add: wf_dict_def)
next
  case (Cons p ret)
  obtain k' s where p: "p = (k', s)" by (cases p)
  from Cons.prems have wf: "wf_dict ret" by (simp add: wf_dict_def)
  from Cons.IH [OF wf] Cons.prems show ?case
    by (auto simp: wf_dict_def p keys_defaultdict_add split: if_splits)
qed

lemma entries_accumulate:
  "entries (accumulate E scope ncs ret) =
     entries ret \<union> (\<lambda>nc. (location_of E scope nc, node_id_of nc)) ` set ncs"
  by (induction ncs arbitrary: ret) (auto simp: entries_defaultdict_add)

lemma wf_accumulate: "wf_dict ret \<Longrightarrow> wf_dict (accumulate E scope ncs ret)"
  by (induction ncs arbitrary: ret) (auto simp: wf_defaultdict_add)

lemma wf_dict_Nil [simp]: "wf_dict []"
  by (simp add: wf_dict_def)

lemma count_members:
  "wf_dict ret \<Longrightarrow>
     count (mset (concat (map snd ret))) x = card {k. (k, x) \<in> entries ret}"
proof (induction ret)
  case Nil
  then show ?case by simp
next
  case (Cons p ret)
  obtain k v where p: "p = (k, v)" by (cases p)
  from Cons.prems have wf: "wf_dict ret" and k: "k \<notin> fst ` set ret" and v: "distinct v"
    by (auto simp: wf_dict_def p)
  have fin: "finite {k'. (k', x) \<in> entries ret}"
    by (rule finite_subset [of _ "fst ` set ret"]) (force simp: entries_def image_iff)+
  have notin: "k \<notin> {k'. (k', x) \<in> entries ret}"
    using k by (force simp: entries_def image_iff)
  have split: "{k'. (k', x) \<in> entries ((k, v) # ret)} =
                 (if x \<in> set v then insert k {k'. (k', x) \<in> entries ret}
                  else {k'. (k', x) \<in> entries ret})"
    by (auto simp: entries_Cons)
  have cv: "count (mset v) x = (if x \<in> set v then 1 else 0)"
    using v by (simp add: distinct_count_atmost_1)
  show ?case
    using Cons.IH [OF wf] fin notin cv by (simp add: p split)
qed

lemma mset_concat_sort_key: "mset (concat (sort_key f xss)) = mset (concat xss)"
proof -
  have "mset (concat ys) = sum_mset (image_mset mset (mset ys))" for ys :: "'a list list"
    by (induction ys) simp_all
  then show ?thesis by simp
qed

lemma mset_concat_groups:
  "iteration_order iter \<Longrightarrow>
     mset (concat (map (\<lambda>(k, v). sort_key f (iter v)) ret)) = mset (concat (map snd ret))"
  by (induction ret) (auto simp: iteration_order_def)

lemma groups_not_Nil:
  assumes "iteration_order iter" and "wf_dict ret"
  shows "[] \<notin> set (map (\<lambda>(k, v). sort_key f (iter v)) ret)"
proof
  assume "[] \<in> set (map (\<lambda>(k, v). sort_key f (iter v)) ret)"
  then obtain k v where kv: "(k, v) \<in> set ret" and e: "sort_key f (iter v) = []"
    by auto
  from e have "mset (sort_key f (iter v)) = {#}" by simp
  with assms(1) have "v = []" by (simp add: iteration_order_def)
  with kv assms(2) show False by (auto simp: wf_dict_def)
qed

lemma sorted_groups_Inr:
  assumes "iteration_order iter" and "wf_dict ret"
  shows "sorted_groups iter ret =
           Inr (sort_key (\<lambda>x. node_index (hd x)) (map (\<lambda>(k, v). sort_key node_index (iter v)) ret))"
  using groups_not_Nil [OF assms, of node_index] by (simp add: sorted_groups_def Let_def)

lemma group_nodes_Inr:
  assumes "iteration_order iter"
  shows "group_nodes E iter scope ncs =
           Inr (sort_key (\<lambda>x. node_index (hd x))
                  (map (\<lambda>(k, v). sort_key node_index (iter v)) (accumulate E scope ncs [])))"
  unfolding group_nodes_def by (rule sorted_groups_Inr [OF assms]) (simp add: wf_accumulate)

lemma group_nodes_members:
  assumes "iteration_order iter" and "group_nodes E iter scope ncs = Inr groups"
  shows "count (mset (concat groups)) x =
           card {k. \<exists>nc \<in> set ncs. k = location_of E scope nc \<and> x = node_id_of nc}"
proof -
  let ?ret = "accumulate E scope ncs []"
  from assms have "groups = sort_key (\<lambda>x. node_index (hd x))
                  (map (\<lambda>(k, v). sort_key node_index (iter v)) ?ret)"
    by (simp add: group_nodes_Inr)
  with assms(1) have "mset (concat groups) = mset (concat (map snd ?ret))"
    by (simp add: mset_concat_sort_key mset_concat_groups)
  moreover have "{k. (k, x) \<in> entries ?ret}
                   = {k. \<exists>nc \<in> set ncs. k = location_of E scope nc \<and> x = node_id_of nc}"
    by (auto simp: entries_accumulate)
  ultimately show ?thesis
    using count_members [of ?ret x] by (simp add: wf_accumulate)
qed

lemma length_members:
  "wf_dict ret \<Longrightarrow> length (concat (map snd ret)) = card (entries ret)"
proof (induction ret)
  case Nil
  then show ?case by simp
next
  case (Cons p ret)
  obtain k v where p: "p = (k, v)" by (cases p)
  from Cons.prems have wf: "wf_dict ret" and k: "k \<notin> fst ` set ret" and v: "distinct v"
    by (auto simp: wf_dict_def p)
  have "entries ret \<subseteq> fst ` set ret \<times> set (concat (map snd ret))"
  proof
    fix p assume "p \<in> entries ret"
    then obtain k' x v' where "p = (k', x)" "(k', v') \<in> set ret" "x \<in> set v'"
      by (auto simp: entries_def)
    then show "p \<in> fst ` set ret \<times> set (concat (map snd ret))"
      by (auto simp: image_iff intro: bexI [of _ "(k', v')"])
  qed
  then have fin: "finite (entries ret)"
    by (rule finite_subset) simp
  have disj: "Pair k ` set v \<inter> entries ret = {}"
    using k by (force simp: entries_def image_iff)
  have "card (Pair k ` set v) = length v"
    using v by (simp add: card_image distinct_card inj_on_def)
  with Cons.IH [OF wf] fin disj show ?case
    by (simp add: p entries_Cons card_Un_disjoint)
qed

lemma cell_of_key:
  assumes "wf_dict ret" and "(k, v) \<in> set ret"
  shows "set v = {x. (k, x) \<in> entries ret}"
proof -
  from assms(1) have d: "distinct (map fst ret)" by (simp add: wf_dict_def)
  show ?thesis
  proof
    show "set v \<subseteq> {x. (k, x) \<in> entries ret}"
      using assms(2) by (auto simp: entries_def)
    show "{x. (k, x) \<in> entries ret} \<subseteq> set v"
    proof
      fix x assume "x \<in> {x. (k, x) \<in> entries ret}"
      then obtain v' where v': "(k, v') \<in> set ret" "x \<in> set v'"
        by (auto simp: entries_def)
      from eq_key_imp_eq_value [OF d v'(1) assms(2)] v'(2) show "x \<in> set v" by simp
    qed
  qed
qed

lemma mset_iteration:
  "iteration_order iter \<Longrightarrow> mset (iter v) = mset v"
  by (simp add: iteration_order_def)

lemma set_iteration:
  "iteration_order iter \<Longrightarrow> set (iter v) = set v"
  by (rule mset_eq_setD) (rule mset_iteration)

lemma distinct_iteration:
  "iteration_order iter \<Longrightarrow> distinct (iter v) = distinct v"
  by (rule mset_eq_imp_distinct_iff) (rule mset_iteration)

lemma groups_are_groups:
  assumes "iteration_order iter" and "wf_dict ret"
    and "g \<in> set (map (\<lambda>(k, v). sort_key node_index (iter v)) ret)"
  shows "is_group (entries ret) g"
proof -
  from assms(3) obtain k v where kv: "(k, v) \<in> set ret" and g: "g = sort_key node_index (iter v)"
    by auto
  from assms(2) kv have v: "v \<noteq> []" "distinct v" by (auto simp: wf_dict_def)
  have "set g = {x. (k, x) \<in> entries ret}"
    using cell_of_key [OF assms(2) kv] by (simp add: g set_iteration [OF assms(1)])
  moreover have "g \<noteq> []"
  proof
    assume "g = []"
    then have "set g = {}" by simp
    then have "set (iter v) = {}" unfolding g set_sort .
    then show False using v(1) by (simp add: set_iteration [OF assms(1)])
  qed
  moreover have "distinct g"
    using v(2) by (simp add: g distinct_iteration [OF assms(1)])
  ultimately show ?thesis by (auto simp: is_group_def g)
qed

lemma group_for_key:
  assumes "iteration_order iter" and "wf_dict ret" and "(k, x) \<in> entries ret"
  shows "\<exists>g \<in> set (map (\<lambda>(k, v). sort_key node_index (iter v)) ret).
           set g = {x. (k, x) \<in> entries ret}"
proof -
  from assms(3) obtain v where kv: "(k, v) \<in> set ret" by (auto simp: entries_def)
  have "set (sort_key node_index (iter v)) = {x. (k, x) \<in> entries ret}"
    using cell_of_key [OF assms(2) kv] by (simp add: set_iteration [OF assms(1)])
  moreover from kv have "sort_key node_index (iter v)
      \<in> set (map (\<lambda>(k, v). sort_key node_index (iter v)) ret)"
    by (auto simp: image_iff intro!: bexI [of _ "(k, v)"])
  ultimately show ?thesis by (rule bexI)
qed

lemma is_group_unique:
  fixes S :: "(location \<times> 'ad NodeID) set"
  assumes inj: "inj_on node_index (snd ` S)"
    and one: "single_key S"
    and g: "is_group S g" and g': "is_group S g'"
    and meet: "set g \<inter> set g' \<noteq> {}"
  shows "g = g'"
proof -
  from g obtain k where k: "set g = {x. (k, x) \<in> S}" by (auto simp: is_group_def)
  from g' obtain k' where k': "set g' = {x. (k', x) \<in> S}" by (auto simp: is_group_def)
  from meet obtain x where "x \<in> set g" "x \<in> set g'" by auto
  with k k' have "(k, x) \<in> S" "(k', x) \<in> S" by auto
  with one have "k = k'" unfolding single_key_def by blast
  with k k' have eq: "set g = set g'" by simp
  have sub: "set g \<union> set g' \<subseteq> snd ` S" using k k' by force
  have i: "inj_on node_index (set g \<union> set g')"
    by (rule inj_on_subset [OF inj sub])
  have "inj_on node_index (set g)" "inj_on node_index (set g')"
    using i by (auto intro: inj_on_subset)
  with g g' have dg: "distinct (map node_index g)" "distinct (map node_index g')"
    by (simp_all add: is_group_def distinct_map)
  from g g' have sg: "sorted (map node_index g)" "sorted (map node_index g')"
    by (simp_all add: is_group_def)
  show ?thesis
    by (rule map_sorted_distinct_set_unique [OF i sg(1) dg(1) sg(2) dg(2) eq])
qed

lemma first_index_inj:
  fixes S :: "(location \<times> 'ad NodeID) set"
  assumes inj: "inj_on node_index (snd ` S)"
    and one: "single_key S"
    and G: "\<And>g. g \<in> A \<Longrightarrow> is_group S g"
  shows "inj_on (\<lambda>x. node_index (hd x)) A"
proof (rule inj_onI)
  fix g g' assume a: "g \<in> A" "g' \<in> A" "node_index (hd g) = node_index (hd g')"
  from G a have gg: "is_group S g" "is_group S g'" by auto
  then have h: "hd g \<in> set g" "hd g' \<in> set g'" by (auto simp: is_group_def)
  with gg have "hd g \<in> snd ` S" "hd g' \<in> snd ` S" by (force simp: is_group_def)+
  with inj a(3) have "hd g = hd g'" by (auto dest: inj_onD)
  with h have "set g \<inter> set g' \<noteq> {}" by auto
  then show "g = g'" by (rule is_group_unique [OF inj one gg])
qed

lemma distinct_groups:
  assumes io: "iteration_order iter" and wf: "wf_dict ret"
    and one: "single_key (entries ret)"
  shows "distinct (map (\<lambda>(k, v). sort_key node_index (iter v)) ret)"
proof -
  let ?G = "\<lambda>(k, v). sort_key node_index (iter v)"
  from wf have dk: "distinct (map fst ret)" by (simp add: wf_dict_def)
  then have d: "distinct ret" by (simp add: distinct_map)
  have "inj_on ?G (set ret)"
  proof (rule inj_onI)
    fix p q assume a: "p \<in> set ret" "q \<in> set ret" "?G p = ?G q"
    obtain k v where p: "p = (k, v)" by (cases p)
    obtain k' v' where q: "q = (k', v')" by (cases q)
    from a(3) have "set (sort_key node_index (iter v)) = set (sort_key node_index (iter v'))"
      by (simp add: p q)
    then have s: "set v = set v'" by (simp add: set_iteration [OF io])
    from wf a(1) have "v \<noteq> []" by (auto simp: wf_dict_def p)
    then obtain x where x: "x \<in> set v" by (cases v) auto
    with s a(1,2) have "(k, x) \<in> entries ret" "(k', x) \<in> entries ret"
      by (auto simp: entries_def p q)
    with one have "k = k'" unfolding single_key_def by blast
    with eq_key_imp_eq_value [OF dk] a(1,2) show "p = q" by (auto simp: p q)
  qed
  with d show ?thesis by (simp add: distinct_map)
qed

lemma groups_subset:
  fixes ret ret' :: "(location \<times> 'ad NodeID list) list"
  assumes io: "iteration_order iter" "iteration_order iter'"
    and wf: "wf_dict ret" "wf_dict ret'"
    and ent: "entries ret' = entries ret"
    and inj: "inj_on node_index (snd ` entries ret)"
    and one: "single_key (entries ret)"
    and g: "g \<in> set (map (\<lambda>(k, v). sort_key node_index (iter v)) ret)"
  shows "g \<in> set (map (\<lambda>(k, v). sort_key node_index (iter' v)) ret')"
proof -
  let ?S = "entries ret"
  have G: "is_group ?S g"
    by (rule groups_are_groups [OF io(1) wf(1) g])
  then obtain k where k: "set g = {x. (k, x) \<in> ?S}" by (auto simp: is_group_def)
  from G obtain x where x: "x \<in> set g" by (cases g) (auto simp: is_group_def)
  with k have "(k, x) \<in> entries ret'" by (simp add: ent)
  from group_for_key [OF io(2) wf(2) this] obtain g'
    where g': "g' \<in> set (map (\<lambda>(k, v). sort_key node_index (iter' v)) ret')"
      and sg': "set g' = {x. (k, x) \<in> entries ret'}" by blast
  have G': "is_group ?S g'"
    using groups_are_groups [OF io(2) wf(2) g'] by (simp add: ent)
  from k x sg' have "set g \<inter> set g' \<noteq> {}" by (auto simp: ent)
  then have "g = g'" by (rule is_group_unique [OF inj one G G'])
  with g' show ?thesis by simp
qed

lemma sorted_groups_unique:
  fixes ret ret' :: "(location \<times> 'ad NodeID list) list"
  assumes io: "iteration_order iter" "iteration_order iter'"
    and wf: "wf_dict ret" "wf_dict ret'"
    and ent: "entries ret' = entries ret"
    and inj: "inj_on node_index (snd ` entries ret)"
    and one: "single_key (entries ret)"
  shows "sorted_groups iter' ret' = sorted_groups iter ret"
proof -
  let ?gs = "map (\<lambda>(k, v). sort_key node_index (iter v)) ret"
  let ?gs' = "map (\<lambda>(k, v). sort_key node_index (iter' v)) ret'"
  let ?h = "\<lambda>x. node_index (hd x)"
  have inj': "inj_on node_index (snd ` entries ret')" and one': "single_key (entries ret')"
    using inj one by (simp_all add: ent)
  have "set ?gs \<subseteq> set ?gs'"
    using groups_subset [OF io wf ent inj one] by blast
  moreover have "set ?gs' \<subseteq> set ?gs"
    using groups_subset [OF io(2,1) wf(2,1) ent [symmetric] inj' one'] by blast
  ultimately have seq: "set ?gs' = set ?gs" by blast
  have d: "distinct ?gs" by (rule distinct_groups [OF io(1) wf(1) one])
  have d': "distinct ?gs'" by (rule distinct_groups [OF io(2) wf(2) one'])
  have m: "mset ?gs' = mset ?gs"
    using set_eq_iff_mset_eq_distinct [OF d' d] seq by blast
  have hinj: "inj_on ?h (set ?gs')"
    by (rule first_index_inj [OF inj' one']) (rule groups_are_groups [OF io(2) wf(2)])
  have "sort_key ?h ?gs' = sort_key ?h ?gs"
  proof (rule sort_key_inj_key_eq [OF _ hinj])
    show "mset ?gs' = mset (sort_key ?h ?gs)" unfolding mset_sort by (rule m)
    show "sorted (map ?h (sort_key ?h ?gs))" by (rule sorted_sort_key)
  qed
  then show ?thesis
    by (simp add: sorted_groups_Inr [OF io(1) wf(1)] sorted_groups_Inr [OF io(2) wf(2)])
qed

section \<open>Properties of the grouping\<close>

lemma group_nodes_by_scope_fetched:
  assumes "fetch_node_configs client node_configs = Inr ncs"
    and "fetch_replication_info client replication_info = Inr info"
  shows "group_nodes_by_scope E iter client node_configs replication_info =
           group_nodes E iter (domain (tolerable_failure_domains info)) ncs"
  using assms by (simp add: group_nodes_by_scope_def)

lemma node_index_node_id_of [simp]: "node_index (node_id_of nc) = nc_node_index nc"
  by (simp add: node_id_of_def)

lemma node_id_of_inj:
  assumes d: "distinct (map nc_node_index ncs)"
    and m: "nc \<in> set ncs" "nc' \<in> set ncs"
    and e: "node_id_of nc = node_id_of nc'"
  shows "nc = nc'"
proof -
  from e have "node_index (node_id_of nc) = node_index (node_id_of nc')" by simp
  then have "nc_node_index nc = nc_node_index nc'" by simp
  moreover from d have "inj_on nc_node_index (set ncs)" by (simp add: distinct_map)
  ultimately show ?thesis using m by (rule_tac inj_onD)
qed

lemma distinct_node_ids:
  assumes d: "distinct (map nc_node_index ncs)"
  shows "distinct (map node_id_of ncs)"
proof -
  from d have "distinct ncs" by (simp add: distinct_map)
  moreover have "inj_on node_id_of (set ncs)"
    by (rule inj_onI) (rule node_id_of_inj [OF d])
  ultimately show ?thesis by (simp add: distinct_map)
qed

lemma group_nodes_mset:
  assumes io: "iteration_order iter" and d: "distinct (map nc_node_index ncs)"
    and r: "group_nodes E iter scope ncs = Inr groups"
  shows "mset (concat groups) = mset (map node_id_of ncs)"
proof (rule multiset_eqI)
  fix x
  let ?K = "{k. \<exists>nc \<in> set ncs. k = location_of E scope nc \<and> x = node_id_of nc}"
  have c: "count (mset (concat groups)) x = card ?K"
    by (rule group_nodes_members [OF io r])
  show "count (mset (concat groups)) x = count (mset (map node_id_of ncs)) x"
  proof (cases "x \<in> node_id_of ` set ncs")
    case True
    then obtain nc where nc: "nc \<in> set ncs" "x = node_id_of nc" by blast
    have "?K = {location_of E scope nc}"
    proof (rule set_eqI)
      fix k
      show "k \<in> ?K \<longleftrightarrow> k \<in> {location_of E scope nc}"
      proof
        assume "k \<in> ?K"
        then obtain nc' where n': "nc' \<in> set ncs" "k = location_of E scope nc'"
          "x = node_id_of nc'" by blast
        from n'(3) nc(2) have "node_id_of nc' = node_id_of nc" by simp
        from node_id_of_inj [OF d n'(1) nc(1) this] n'(2)
        show "k \<in> {location_of E scope nc}" by simp
      next
        assume "k \<in> {location_of E scope nc}"
        with nc show "k \<in> ?K" by blast
      qed
    qed
    then have "card ?K = 1" by simp
    moreover have "count (mset (map node_id_of ncs)) x = 1"
      using distinct_node_ids [OF d] True by (simp add: distinct_count_atmost_1)
    ultimately show ?thesis using c by simp
  next
    case False
    then have "?K = {}" by blast
    then have "card ?K = 0" by simp
    moreover from False have "count (mset (map node_id_of ncs)) x = 0"
      by (simp add: count_eq_zero_iff)
    ultimately show ?thesis using c by simp
  qed
qed

lemma disjoint_nth_of_distinct_concat:
  "distinct (concat xss) \<Longrightarrow> i < j \<Longrightarrow> j < length xss \<Longrightarrow> set (xss ! i) \<inter> set (xss ! j) = {}"
proof (induction xss arbitrary: i j)
  case Nil
  then show ?case by simp
next
  case (Cons xs xss)
  from Cons.prems obtain j' where j: "j = Suc j'" "j' < length xss" by (cases j) simp_all
  show ?case
  proof (cases i)
    case 0
    from j have "set (xss ! j') \<subseteq> \<Union> (set ` set xss)" by (auto intro: nth_mem)
    moreover from Cons.prems(1) have "set xs \<inter> \<Union> (set ` set xss) = {}" by simp
    ultimately have "set xs \<inter> set (xss ! j') = {}" by blast
    with 0 j show ?thesis by simp
  next
    case (Suc i')
    with Cons.prems(2) j have "i' < j'" by simp
    moreover from Cons.prems(1) have "distinct (concat xss)" by simp
    ultimately have "set (xss ! i') \<inter> set (xss ! j') = {}"
      using j(2) by (rule_tac Cons.IH)
    with Suc j show ?thesis by simp
  qed
qed

text \<open>
  C1.  For node configurations with pairwise distinct node indices and for every scope,
  \<open>group_nodes_by_scope\<close> returns groups that partition the input: the union of the
  groups is the set of the identities of the input nodes, two groups at different
  positions have no member in common, no group is empty or repeats a member, and every
  input node is a member exactly once (the members of all groups together are, as a
  multiset, the identities of the input list).
\<close>

theorem group_nodes_by_scope_partition:
  assumes "iteration_order iter"
    and "fetch_node_configs client node_configs = Inr ncs"
    and "fetch_replication_info client replication_info = Inr info"
    and "distinct (map nc_node_index ncs)"
  shows "\<exists>groups. group_nodes_by_scope E iter client node_configs replication_info = Inr groups \<and>
           (\<Union>g \<in> set groups. set g) = node_id_of ` set ncs \<and>
           (\<forall>i j. i < j \<and> j < length groups \<longrightarrow> set (groups ! i) \<inter> set (groups ! j) = {}) \<and>
           (\<forall>g \<in> set groups. g \<noteq> [] \<and> distinct g) \<and>
           mset (concat groups) = mset (map node_id_of ncs)"
proof -
  let ?scope = "domain (tolerable_failure_domains info)"
  let ?gs = "map (\<lambda>(k, v). sort_key node_index (iter v)) (accumulate E ?scope ncs [])"
  let ?groups = "sort_key (\<lambda>x. node_index (hd x)) ?gs"
  have r: "group_nodes E iter ?scope ncs = Inr ?groups"
    by (rule group_nodes_Inr [OF assms(1)])
  have m: "mset (concat ?groups) = mset (map node_id_of ncs)"
    by (rule group_nodes_mset [OF assms(1,4) r])
  then have "set (concat ?groups) = set (map node_id_of ncs)"
    by (rule mset_eq_setD)
  then have u: "(\<Union>g \<in> set ?groups. set g) = node_id_of ` set ncs" by simp
  have dc: "distinct (concat ?groups)"
    using mset_eq_imp_distinct_iff [OF m] distinct_node_ids [OF assms(4)] by simp
  have dj: "\<forall>i j. i < j \<and> j < length ?groups \<longrightarrow> set (?groups ! i) \<inter> set (?groups ! j) = {}"
    using disjoint_nth_of_distinct_concat [OF dc] by blast
  have wf: "wf_dict (accumulate E ?scope ncs [])"
    by (rule wf_accumulate) simp
  have "[] \<notin> set ?gs"
    by (rule groups_not_Nil [OF assms(1) wf])
  then have n: "[] \<notin> set ?groups" by simp
  have ne: "\<forall>g \<in> set ?groups. g \<noteq> [] \<and> distinct g"
  proof
    fix g assume g: "g \<in> set ?groups"
    with n have "g \<noteq> []" by blast
    moreover from dc g have "distinct g" unfolding distinct_concat_iff by blast
    ultimately show "g \<noteq> [] \<and> distinct g" ..
  qed
  have "group_nodes_by_scope E iter client node_configs replication_info = Inr ?groups"
    using r by (simp only: group_nodes_by_scope_fetched [OF assms(2,3)])
  with u dj ne m show ?thesis by blast
qed

lemma iteration_order_id: "iteration_order (id :: 'a list \<Rightarrow> 'a list)"
  by (simp add: iteration_order_def)

lemma iteration_order_rev: "iteration_order (rev :: 'a list \<Rightarrow> 'a list)"
  by (simp add: iteration_order_def)

lemma scenario_fetch:
  "fetch_node_configs scenario_client None = Inr [node_D, node_B, node_A, node_C]"
  "fetch_node_configs scenario_client (Some ncs) = Inr ncs"
  "fetch_replication_info scenario_client None = Inr (scope_info S_RACK)"
  "fetch_replication_info scenario_client (Some info) = Inr info"
  by (simp_all add: fetch_node_configs_def fetch_replication_info_def scenario_client_def)

lemma scenario_indices:
  "nc_node_index node_A = 0" "nc_node_index node_B = 1" "nc_node_index node_C = 2"
  "nc_node_index node_D = 3" "nc_node_index twin_a = 0" "nc_node_index twin_b = 0"
  "nc_node_index moved_a = 0"
  by (simp_all add: node_A_def node_B_def node_C_def node_D_def twin_a_def twin_b_def
        moved_a_def located_def)

lemma scenario_domain [simp]: "domain (tolerable_failure_domains (scope_info s)) = s"
  by (simp add: scope_info_def)

lemmas scenario_defs = group_nodes_by_scope_def fetch_node_configs_def
  fetch_replication_info_def group_nodes_def sorted_groups_def location_of_def
  sorted_scopes_def scenario_scopes_def set_add_def node_id_of_def dict_get_def located_def
  scope_info_def scenario_client_def node_A_def node_B_def node_C_def node_D_def twin_a_def
  twin_b_def moved_a_def

theorem group_nodes_by_scope_partition_witness:
  "\<exists>groups. group_nodes_by_scope scenario_scopes rev scenario_client None None = Inr groups \<and>
     (\<Union>g \<in> set groups. set g) = node_id_of ` set [node_D, node_B, node_A, node_C] \<and>
     (\<forall>i j. i < j \<and> j < length groups \<longrightarrow> set (groups ! i) \<inter> set (groups ! j) = {}) \<and>
     (\<forall>g \<in> set groups. g \<noteq> [] \<and> distinct g) \<and>
     mset (concat groups) = mset (map node_id_of [node_D, node_B, node_A, node_C])"
proof (rule group_nodes_by_scope_partition)
  show "iteration_order (rev :: string NodeID list \<Rightarrow> string NodeID list)"
    by (rule iteration_order_rev)
  show "fetch_node_configs scenario_client None = Inr [node_D, node_B, node_A, node_C]"
    by (rule scenario_fetch)
  show "fetch_replication_info scenario_client None = Inr (scope_info S_RACK)"
    by (rule scenario_fetch)
  show "distinct (map nc_node_index [node_D, node_B, node_A, node_C])"
    by (simp add: scenario_indices)
qed

lemma kept_levels_eq:
  "kept_levels E scope =
     rev (sort_key (scope_value E)
            (rev (filter (\<lambda>l. scope_value E l \<ge> scope_value E scope) (members E))))"
proof -
  let ?P = "\<lambda>l. scope_value E l \<ge> scope_value E scope"
  have "filter ?P (rev (sort_key (scope_value E) (rev (members E))))
          = rev (filter ?P (sort_key (scope_value E) (rev (members E))))"
    by (simp only: rev_filter)
  also have "\<dots> = rev (sort_key (scope_value E) (filter ?P (rev (members E))))"
    by (simp only: filter_sort)
  also have "\<dots> = rev (sort_key (scope_value E) (rev (filter ?P (members E))))"
    by (simp only: rev_filter)
  finally show ?thesis by (simp only: kept_levels_def sorted_scopes_def)
qed

lemma location_of_kept_levels:
  "scope \<noteq> NODE E \<Longrightarrow>
     location_of E scope nc =
       Labels (map (\<lambda>l. dict_get (nc_location_per_scope nc) l '''') (kept_levels E scope))"
  by (simp add: location_of_def kept_levels_def)

text \<open>
  C4.  For a scope other than \<open>NODE\<close> the key computed by the code is the tuple that the
  specification describes.  The levels of that tuple are, with their multiplicities,
  the levels of the enumeration whose value is at least the value of the target scope,
  and their values do not increase along the tuple (coarsest first); the entry at a
  level is the node's label, or the empty string when the node has none.
\<close>

theorem location_of_refines_spec:
  assumes "scope \<noteq> NODE E"
  shows "location_of E scope node_config = Labels (spec_location_key E scope node_config) \<and>
         (\<exists>levels. spec_location_key E scope node_config =
                      map (\<lambda>level. case nc_location_per_scope node_config level of
                                      Some label \<Rightarrow> label | None \<Rightarrow> '''') levels \<and>
            mset levels = filter_mset (\<lambda>level. scope_value E level \<ge> scope_value E scope)
                            (mset (members E)) \<and>
            sorted (rev (map (scope_value E) levels)))"
proof -
  let ?kept = "filter (\<lambda>l. scope_value E l \<ge> scope_value E scope) (members E)"
  let ?levels = "rev (sort_key (scope_value E) (rev ?kept))"
  let ?label = "\<lambda>level. case nc_location_per_scope node_config level of
                           Some label \<Rightarrow> label | None \<Rightarrow> ''''"
  have k: "spec_location_key E scope node_config = map ?label ?levels"
    by (simp add: spec_location_key_def Let_def)
  have l: "(\<lambda>l. dict_get (nc_location_per_scope node_config) l '''') = ?label"
    by (simp add: dict_get_def)
  have "location_of E scope node_config =
          Labels (map (\<lambda>l. dict_get (nc_location_per_scope node_config) l '''')
                    (kept_levels E scope))"
    by (rule location_of_kept_levels [OF assms])
  also have "\<dots> = Labels (map ?label ?levels)"
    unfolding l kept_levels_eq ..
  finally have 1: "location_of E scope node_config
                     = Labels (spec_location_key E scope node_config)"
    unfolding k .
  have 2: "mset ?levels = filter_mset (\<lambda>level. scope_value E level \<ge> scope_value E scope)
                            (mset (members E))"
    by simp
  have "rev (map (scope_value E) ?levels) = map (scope_value E) (sort_key (scope_value E) (rev ?kept))"
    by (simp add: rev_map)
  then have 3: "sorted (rev (map (scope_value E) ?levels))"
    by (simp only: sorted_sort_key)
  from k 2 3 have "\<exists>levels. spec_location_key E scope node_config = map ?label levels \<and>
            mset levels = filter_mset (\<lambda>level. scope_value E level \<ge> scope_value E scope)
                            (mset (members E)) \<and>
            sorted (rev (map (scope_value E) levels))"
    by blast
  with 1 show ?thesis by blast
qed

theorem location_of_refines_spec_witness:
  "S_RACK \<noteq> NODE scenario_scopes \<and>
   location_of scenario_scopes S_RACK node_A = Labels [''d1'', ''r1''] \<and>
   spec_location_key scenario_scopes S_RACK node_A = [''d1'', ''r1'']"
proof -
  have h: "S_RACK \<noteq> NODE scenario_scopes" by (simp add: scenario_scopes_def)
  have k: "spec_location_key scenario_scopes S_RACK node_A = [''d1'', ''r1'']"
    by (simp add: spec_location_key_def scenario_scopes_def node_A_def located_def)
  from location_of_refines_spec [OF h, of node_A] have
    "location_of scenario_scopes S_RACK node_A
       = Labels (spec_location_key scenario_scopes S_RACK node_A)" by (rule conjunct1)
  with h k show ?thesis by simp
qed

lemma defaultdict_add_new:
  "k \<notin> fst ` set ret \<Longrightarrow> defaultdict_add k x ret = ret @ [(k, [x])]"
proof (induction ret)
  case Nil
  then show ?case by (simp add: set_add_def)
next
  case (Cons p ret)
  obtain k' s where p: "p = (k', s)" by (cases p)
  from Cons.prems have "k \<noteq> k'" "k \<notin> fst ` set ret" by (simp_all add: p)
  with Cons.IH show ?case by (simp add: p)
qed

lemma accumulate_NODE:
  "distinct (map nc_node_index ncs) \<Longrightarrow>
   Index ` nc_node_index ` set ncs \<inter> fst ` set ret = {} \<Longrightarrow>
   accumulate E (NODE E) ncs ret =
     ret @ map (\<lambda>nc. (Index (nc_node_index nc), [node_id_of nc])) ncs"
proof (induction ncs arbitrary: ret)
  case Nil
  then show ?case by simp
next
  case (Cons nc ncs)
  let ?k = "Index (nc_node_index nc)"
  let ?ret = "ret @ [(?k, [node_id_of nc])]"
  from Cons.prems(2) have new: "?k \<notin> fst ` set ret" by auto
  have loc: "location_of E (NODE E) nc = ?k" by (simp add: location_of_def)
  from Cons.prems(1) have d: "distinct (map nc_node_index ncs)"
    and notin: "nc_node_index nc \<notin> nc_node_index ` set ncs" by simp_all
  from Cons.prems(2) have "Index ` nc_node_index ` set ncs \<inter> fst ` set ret = {}" by auto
  moreover from notin have "?k \<notin> Index ` nc_node_index ` set ncs" by auto
  ultimately have "Index ` nc_node_index ` set ncs \<inter> fst ` set ?ret = {}" by auto
  from Cons.IH [OF d this] show ?case
    by (simp add: loc defaultdict_add_new [OF new])
qed

lemma iteration_singleton: "iteration_order iter \<Longrightarrow> iter [a] = [a]"
proof -
  assume "iteration_order iter"
  then have "mset (iter [a]) = {#a#}" by (simp add: iteration_order_def)
  then show ?thesis by (simp only: mset_single_iff)
qed

lemma insort_key_map:
  "insort_key f (g x) (map g xs) = map g (insort_key (\<lambda>y. f (g y)) x xs)"
  by (induction xs) simp_all

lemma sort_key_map:
  "sort_key f (map g xs) = map g (sort_key (\<lambda>y. f (g y)) xs)"
  by (induction xs) (simp_all add: insort_key_map)

lemma group_nodes_NODE:
  assumes io: "iteration_order iter" and d: "distinct (map nc_node_index ncs)"
  shows "group_nodes E iter (NODE E) ncs =
           Inr (map (\<lambda>nc. [node_id_of nc]) (sort_key nc_node_index ncs))"
proof -
  have acc: "accumulate E (NODE E) ncs [] =
               map (\<lambda>nc. (Index (nc_node_index nc), [node_id_of nc])) ncs"
    using accumulate_NODE [OF d, of "[]" E] by simp
  have gs: "map (\<lambda>(k, v). sort_key node_index (iter v)) (accumulate E (NODE E) ncs [])
              = map (\<lambda>nc. [node_id_of nc]) ncs"
    by (simp add: acc iteration_singleton [OF io] comp_def)
  have "sort_key (\<lambda>x. node_index (hd x)) (map (\<lambda>nc. [node_id_of nc]) ncs)
          = map (\<lambda>nc. [node_id_of nc]) (sort_key nc_node_index ncs)"
    by (simp add: sort_key_map)
  then show ?thesis
    by (simp only: group_nodes_Inr [OF io] gs)
qed

text \<open>
  C6.  For node configurations with pairwise distinct node indices and the scope
  \<open>NODE\<close>, \<open>group_nodes_by_scope\<close> returns as many groups as there are input nodes;
  every group is the singleton of the identity of an input node, every input node has
  its singleton group, and the groups are those of the nodes in ascending order of the
  node index.
\<close>

theorem group_nodes_by_scope_NODE:
  assumes "iteration_order iter"
    and "fetch_node_configs client node_configs = Inr ncs"
    and "fetch_replication_info client replication_info = Inr info"
    and "domain (tolerable_failure_domains info) = NODE E"
    and "distinct (map nc_node_index ncs)"
  shows "\<exists>groups. group_nodes_by_scope E iter client node_configs replication_info = Inr groups \<and>
           length groups = length ncs \<and>
           (\<forall>g \<in> set groups. \<exists>nc \<in> set ncs. g = [node_id_of nc]) \<and>
           (\<forall>nc \<in> set ncs. [node_id_of nc] \<in> set groups) \<and>
           groups = map (\<lambda>nc. [node_id_of nc]) (sort_key nc_node_index ncs)"
proof -
  let ?groups = "map (\<lambda>nc. [node_id_of nc]) (sort_key nc_node_index ncs)"
  have "group_nodes_by_scope E iter client node_configs replication_info = Inr ?groups"
    using group_nodes_NODE [OF assms(1,5), of E] assms(4)
    by (simp only: group_nodes_by_scope_fetched [OF assms(2,3)])
  moreover have "length ?groups = length ncs" by simp
  moreover have "\<forall>g \<in> set ?groups. \<exists>nc \<in> set ncs. g = [node_id_of nc]" by auto
  moreover have "\<forall>nc \<in> set ncs. [node_id_of nc] \<in> set ?groups" by auto
  ultimately show ?thesis by blast
qed

theorem group_nodes_by_scope_NODE_witness:
  "\<exists>groups. group_nodes_by_scope scenario_scopes rev scenario_client None
               (Some (scope_info S_NODE)) = Inr groups \<and>
     length groups = length [node_D, node_B, node_A, node_C] \<and>
     groups = [[node_id_of node_A], [node_id_of node_B], [node_id_of node_C], [node_id_of node_D]]"
proof -
  have n: "domain (tolerable_failure_domains (scope_info S_NODE)) = NODE scenario_scopes"
    by (simp add: scenario_scopes_def)
  have d: "distinct (map nc_node_index [node_D, node_B, node_A, node_C])"
    by (simp add: scenario_indices)
  have s: "sort_key nc_node_index [node_D, node_B, node_A, node_C]
             = [node_A, node_B, node_C, node_D]"
    by (simp add: scenario_indices)
  from group_nodes_by_scope_NODE [OF iteration_order_rev scenario_fetch(1) scenario_fetch(4) n d]
  obtain groups where
    g: "group_nodes_by_scope scenario_scopes rev scenario_client None
          (Some (scope_info S_NODE)) = Inr groups"
       "length groups = length [node_D, node_B, node_A, node_C]"
       "groups = map (\<lambda>nc. [node_id_of nc]) (sort_key nc_node_index [node_D, node_B, node_A, node_C])"
    by blast
  from g(3) have "groups = [[node_id_of node_A], [node_id_of node_B], [node_id_of node_C],
                            [node_id_of node_D]]"
    by (simp only: s list.map)
  with g(1,2) show ?thesis by blast
qed

lemma group_nodes_flat:
  assumes "iteration_order iter" and "group_nodes E iter scope ncs = Inr groups"
  shows "mset (concat groups) = mset (concat (map snd (accumulate E scope ncs [])))"
proof -
  let ?ret = "accumulate E scope ncs []"
  from assms have "groups = sort_key (\<lambda>x. node_index (hd x))
                  (map (\<lambda>(k, v). sort_key node_index (iter v)) ?ret)"
    by (simp add: group_nodes_Inr)
  with assms(1) show ?thesis
    by (simp add: mset_concat_sort_key mset_concat_groups)
qed

lemma entries_accumulate_Nil:
  "entries (accumulate E scope ncs []) =
     set (map (\<lambda>nc. (location_of E scope nc, node_id_of nc)) ncs)"
  by (simp add: entries_accumulate)

lemma group_nodes_length:
  assumes io: "iteration_order iter" and r: "group_nodes E iter scope ncs = Inr groups"
  shows "length (concat groups) =
           card (set (map (\<lambda>nc. (location_of E scope nc, node_id_of nc)) ncs))"
proof -
  have "length (concat groups) = size (mset (concat groups))" by simp
  also have "\<dots> = size (mset (concat (map snd (accumulate E scope ncs []))))"
    by (simp only: group_nodes_flat [OF io r])
  also have "\<dots> = length (concat (map snd (accumulate E scope ncs [])))" by simp
  also have "\<dots> = card (entries (accumulate E scope ncs []))"
    by (rule length_members) (simp add: wf_accumulate)
  finally show ?thesis by (simp only: entries_accumulate_Nil)
qed

lemma card_set_less_length:
  assumes "i < j" and "j < length xs" and "xs ! i = xs ! j"
  shows "card (set xs) < length xs"
proof -
  have "\<not> distinct xs"
  proof
    assume "distinct xs"
    moreover from assms(1,2) have "i < length xs" by simp
    ultimately have "i = j" using assms(2,3) by (simp add: nth_eq_iff_index_eq)
    with assms(1) show False by simp
  qed
  then have "card (set xs) \<noteq> length xs" by (auto dest: card_distinct)
  with card_length [of xs] show ?thesis by simp
qed

text \<open>
  C9, as stated, fails: the input below has two entries with the same identity and the
  same location key, and a third entry with that identity under another key.  The
  identity is stored once under each key and is in the output twice.
\<close>

theorem group_nodes_by_scope_duplicates_counterexample:
  "node_id_of ([twin_a, twin_a, moved_a] ! 0) = node_id_of ([twin_a, twin_a, moved_a] ! 1) \<and>
   location_of scenario_scopes S_RACK ([twin_a, twin_a, moved_a] ! 0)
     = location_of scenario_scopes S_RACK ([twin_a, twin_a, moved_a] ! 1) \<and>
   group_nodes_by_scope scenario_scopes id scenario_client (Some [twin_a, twin_a, moved_a]) None
     = Inr [[node_id_of twin_a], [node_id_of twin_a]] \<and>
   count_list (concat [[node_id_of twin_a], [node_id_of twin_a]]) (node_id_of twin_a) = 2"
  by (simp add: scenario_defs)

text \<open>
  C9, amended.  When two entries of the input, at the positions \<open>i < j\<close>, have the same
  identity and the same location key, the output has fewer members than the input has
  entries, and the identity is in the output once for every location key under which an
  entry with that identity is found: exactly once when no entry has that identity under
  another key.
\<close>

theorem group_nodes_by_scope_duplicates:
  assumes io: "iteration_order iter"
    and ncs: "fetch_node_configs client node_configs = Inr ncs"
    and info: "fetch_replication_info client replication_info = Inr info"
    and scope: "scope = domain (tolerable_failure_domains info)"
    and ij: "i < j" "j < length ncs"
    and same_id: "node_id_of (ncs ! i) = node_id_of (ncs ! j)"
    and same_key: "location_of E scope (ncs ! i) = location_of E scope (ncs ! j)"
  shows "\<exists>groups. group_nodes_by_scope E iter client node_configs replication_info = Inr groups \<and>
           length (concat groups) < length ncs \<and>
           count_list (concat groups) (node_id_of (ncs ! i)) =
             card {k. \<exists>nc \<in> set ncs. k = location_of E scope nc
                                    \<and> node_id_of (ncs ! i) = node_id_of nc} \<and>
           ((\<forall>nc \<in> set ncs. node_id_of nc = node_id_of (ncs ! i) \<longrightarrow>
                            location_of E scope nc = location_of E scope (ncs ! i)) \<longrightarrow>
              count_list (concat groups) (node_id_of (ncs ! i)) = 1)"
proof -
  let ?x = "node_id_of (ncs ! i)"
  let ?f = "\<lambda>nc. (location_of E scope nc, node_id_of nc)"
  let ?K = "{k. \<exists>nc \<in> set ncs. k = location_of E scope nc \<and> ?x = node_id_of nc}"
  let ?gs = "map (\<lambda>(k, v). sort_key node_index (iter v)) (accumulate E scope ncs [])"
  let ?groups = "sort_key (\<lambda>x. node_index (hd x)) ?gs"
  have r: "group_nodes E iter scope ncs = Inr ?groups"
    by (rule group_nodes_Inr [OF io])
  have eq: "map ?f ncs ! i = map ?f ncs ! j"
    using ij same_id same_key by simp
  have lt: "j < length (map ?f ncs)" using ij by simp
  have "card (set (map ?f ncs)) < length (map ?f ncs)"
    by (rule card_set_less_length [OF ij(1) lt eq])
  then have len: "length (concat ?groups) < length ncs"
    by (simp only: group_nodes_length [OF io r] length_map)
  have "count (mset (concat ?groups)) ?x = card ?K"
    by (rule group_nodes_members [OF io r])
  then have cnt: "count_list (concat ?groups) ?x = card ?K"
    by (simp only: count_mset)
  have one: "count_list (concat ?groups) ?x = 1"
    if a: "\<forall>nc \<in> set ncs. node_id_of nc = ?x \<longrightarrow>
                            location_of E scope nc = location_of E scope (ncs ! i)"
  proof -
    from ij have m: "ncs ! i \<in> set ncs" by simp
    have "?K = {location_of E scope (ncs ! i)}"
    proof (rule set_eqI)
      fix k
      show "k \<in> ?K \<longleftrightarrow> k \<in> {location_of E scope (ncs ! i)}"
      proof
        assume "k \<in> ?K"
        then obtain nc where "nc \<in> set ncs" "k = location_of E scope nc" "?x = node_id_of nc"
          by blast
        with a show "k \<in> {location_of E scope (ncs ! i)}" by simp
      next
        assume "k \<in> {location_of E scope (ncs ! i)}"
        with m show "k \<in> ?K" by blast
      qed
    qed
    with cnt show ?thesis by simp
  qed
  have "group_nodes_by_scope E iter client node_configs replication_info = Inr ?groups"
    using r by (simp only: group_nodes_by_scope_fetched [OF ncs info] scope)
  with len cnt one show ?thesis by blast
qed

theorem group_nodes_by_scope_duplicates_witness:
  "\<exists>groups. group_nodes_by_scope scenario_scopes id scenario_client
               (Some [twin_a, twin_a, node_B]) None = Inr groups \<and>
     length (concat groups) < 3 \<and>
     count_list (concat groups) (node_id_of twin_a) = 1"
proof -
  have s: "S_RACK = domain (tolerable_failure_domains (scope_info S_RACK))" by simp
  have ij: "(0::nat) < 1" "1 < length [twin_a, twin_a, node_B]" by simp_all
  have e: "node_id_of ([twin_a, twin_a, node_B] ! 0) = node_id_of ([twin_a, twin_a, node_B] ! 1)"
    "location_of scenario_scopes S_RACK ([twin_a, twin_a, node_B] ! 0)
       = location_of scenario_scopes S_RACK ([twin_a, twin_a, node_B] ! 1)"
    by simp_all
  have a: "\<forall>nc \<in> set [twin_a, twin_a, node_B].
             node_id_of nc = node_id_of ([twin_a, twin_a, node_B] ! 0) \<longrightarrow>
             location_of scenario_scopes S_RACK nc
               = location_of scenario_scopes S_RACK ([twin_a, twin_a, node_B] ! 0)"
    by (simp add: node_id_of_def twin_a_def node_B_def located_def)
  from group_nodes_by_scope_duplicates
         [OF iteration_order_id scenario_fetch(2) scenario_fetch(3) s ij e]
  obtain groups where
    g: "group_nodes_by_scope scenario_scopes id scenario_client
          (Some [twin_a, twin_a, node_B]) None = Inr groups"
       "length (concat groups) < length [twin_a, twin_a, node_B]"
       "(\<forall>nc \<in> set [twin_a, twin_a, node_B].
             node_id_of nc = node_id_of ([twin_a, twin_a, node_B] ! 0) \<longrightarrow>
             location_of scenario_scopes S_RACK nc
               = location_of scenario_scopes S_RACK ([twin_a, twin_a, node_B] ! 0)) \<longrightarrow>
        count_list (concat groups) (node_id_of ([twin_a, twin_a, node_B] ! 0)) = 1"
    by blast
  from g(3) a have "count_list (concat groups) (node_id_of ([twin_a, twin_a, node_B] ! 0)) = 1"
    by blast
  then have "count_list (concat groups) (node_id_of twin_a) = 1" by simp
  moreover from g(2) have "length (concat groups) < 3" by simp
  ultimately show ?thesis using g(1) by blast
qed

lemma group_nodes_permutation:
  assumes io: "iteration_order iter" "iteration_order iter'"
    and d: "distinct (map nc_node_index ncs)"
    and m: "mset ncs' = mset ncs"
  shows "group_nodes E iter' scope ncs' = group_nodes E iter scope ncs"
proof -
  let ?ret = "accumulate E scope ncs []" and ?ret' = "accumulate E scope ncs' []"
  from m have s: "set ncs' = set ncs" by (rule mset_eq_setD)
  have ent: "entries ?ret' = entries ?ret"
    by (simp only: entries_accumulate s)
  have inj: "inj_on node_index (snd ` entries ?ret)"
  proof (rule inj_onI)
    fix x y assume x: "x \<in> snd ` entries ?ret" and y: "y \<in> snd ` entries ?ret"
      and e: "node_index x = node_index y"
    from x obtain nc where n: "nc \<in> set ncs" "x = node_id_of nc"
      by (auto simp: entries_accumulate)
    from y obtain nc' where n': "nc' \<in> set ncs" "y = node_id_of nc'"
      by (auto simp: entries_accumulate)
    from e n(2) n'(2) have "nc_node_index nc = nc_node_index nc'" by simp
    moreover from d have "inj_on nc_node_index (set ncs)" by (simp add: distinct_map)
    ultimately have "nc = nc'" using n(1) n'(1) by (rule_tac inj_onD)
    with n(2) n'(2) show "x = y" by simp
  qed
  have one: "single_key (entries ?ret)"
    unfolding single_key_def
  proof (intro allI impI)
    fix k k' x assume a: "(k, x) \<in> entries ?ret" and b: "(k', x) \<in> entries ?ret"
    from a obtain nc where n: "nc \<in> set ncs" "k = location_of E scope nc" "x = node_id_of nc"
      by (auto simp: entries_accumulate)
    from b obtain nc' where n': "nc' \<in> set ncs" "k' = location_of E scope nc'"
      "x = node_id_of nc'"
      by (auto simp: entries_accumulate)
    from n(3) n'(3) have "node_id_of nc = node_id_of nc'" by simp
    from node_id_of_inj [OF d n(1) n'(1) this] n(2) n'(2) show "k = k'" by simp
  qed
  have wf: "wf_dict ?ret" "wf_dict ?ret'" by (simp_all add: wf_accumulate)
  show ?thesis
    unfolding group_nodes_def
    by (rule sorted_groups_unique [OF io wf ent inj one])
qed

lemma hd_least_of_sorted:
  "sorted (map f g) \<Longrightarrow> x \<in> set g \<Longrightarrow> f (hd g) \<le> f x"
  by (cases g) auto

text \<open>
  C5, as stated, fails.  The input below has two node configurations with the same node
  index, different names and the same location key.  The sort by \<open>node_index\<close> is
  stable and leaves the two identities in the order in which the Python set yields them,
  which the program does not determine: two iteration orders give two outputs for the
  same input.  Likewise two groups whose first members have the same node index stay in
  the order in which their keys entered the dictionary: the same two node configurations
  listed in the other order give the groups in the other order.
\<close>

theorem group_nodes_by_scope_order_counterexample:
  "iteration_order (id :: string NodeID list \<Rightarrow> string NodeID list) \<and>
   iteration_order (rev :: string NodeID list \<Rightarrow> string NodeID list) \<and>
   group_nodes_by_scope scenario_scopes id scenario_client (Some [twin_a, twin_b]) None
     = Inr [[node_id_of twin_a, node_id_of twin_b]] \<and>
   group_nodes_by_scope scenario_scopes rev scenario_client (Some [twin_a, twin_b]) None
     = Inr [[node_id_of twin_b, node_id_of twin_a]] \<and>
   group_nodes_by_scope scenario_scopes id scenario_client (Some [twin_a, twin_b]) None
     \<noteq> group_nodes_by_scope scenario_scopes rev scenario_client (Some [twin_a, twin_b]) None \<and>
   group_nodes_by_scope scenario_scopes id scenario_client (Some [twin_b, moved_a]) None
     = Inr [[node_id_of twin_b], [node_id_of moved_a]] \<and>
   group_nodes_by_scope scenario_scopes id scenario_client (Some [moved_a, twin_b]) None
     = Inr [[node_id_of moved_a], [node_id_of twin_b]] \<and>
   node_id_of twin_b \<noteq> node_id_of moved_a"
  by (simp add: iteration_order_id iteration_order_rev scenario_defs)

text \<open>
  C5, amended.  For every input the output is in canonical order: no group is empty,
  the members of every group are sorted by node index ascending, the first member of a
  group has the smallest node index of the group, and the groups are sorted ascending by
  the node index of their first member.  For an input with pairwise distinct node
  indices the output is determined by the input alone: it is the same for every
  iteration order of the sets, and the same when the node configurations are passed in
  another order.
\<close>

theorem group_nodes_by_scope_canonical_order:
  fixes iter :: "'ad NodeID list \<Rightarrow> 'ad NodeID list"
    and ncs :: "('sc, 'ad) NodeConfig list"
  assumes io: "iteration_order iter"
    and ncs: "fetch_node_configs client node_configs = Inr ncs"
    and info: "fetch_replication_info client replication_info = Inr info"
  shows "\<exists>groups. group_nodes_by_scope E iter client node_configs replication_info = Inr groups \<and>
           (\<forall>g \<in> set groups. g \<noteq> [] \<and> sorted (map node_index g) \<and>
                              (\<forall>x \<in> set g. node_index (hd g) \<le> node_index x)) \<and>
           sorted (map (\<lambda>g. node_index (hd g)) groups) \<and>
           (distinct (map nc_node_index ncs) \<longrightarrow>
              (\<forall>iter'. iteration_order iter' \<longrightarrow>
                 group_nodes_by_scope E iter' client node_configs replication_info = Inr groups) \<and>
              (\<forall>iter' ncs'. iteration_order iter' \<and> mset ncs' = mset ncs \<longrightarrow>
                 group_nodes_by_scope E iter' client (Some ncs') (Some info) = Inr groups))"
proof -
  let ?scope = "domain (tolerable_failure_domains info)"
  let ?gs = "map (\<lambda>(k, v). sort_key node_index (iter v)) (accumulate E ?scope ncs [])"
  let ?groups = "sort_key (\<lambda>x. node_index (hd x)) ?gs"
  have r: "group_nodes E iter ?scope ncs = Inr ?groups"
    by (rule group_nodes_Inr [OF io])
  have wf: "wf_dict (accumulate E ?scope ncs [])"
    by (rule wf_accumulate) simp
  have nil: "[] \<notin> set ?gs"
    by (rule groups_not_Nil [OF io wf])
  have g: "\<forall>g \<in> set ?groups. g \<noteq> [] \<and> sorted (map node_index g) \<and>
             (\<forall>x \<in> set g. node_index (hd g) \<le> node_index x)"
  proof
    fix g assume "g \<in> set ?groups"
    then have m: "g \<in> set ?gs" by simp
    with nil have ne: "g \<noteq> []" by blast
    from m obtain k v where "g = sort_key node_index (iter v)" by auto
    then have s: "sorted (map node_index g)" by simp
    then have "\<forall>x \<in> set g. node_index (hd g) \<le> node_index x"
      by (blast intro: hd_least_of_sorted)
    with ne s show "g \<noteq> [] \<and> sorted (map node_index g) \<and>
                     (\<forall>x \<in> set g. node_index (hd g) \<le> node_index x)" by blast
  qed
  have s: "sorted (map (\<lambda>g. node_index (hd g)) ?groups)" by (rule sorted_sort_key)
  have here: "group_nodes_by_scope E iter client node_configs replication_info = Inr ?groups"
    using r by (simp only: group_nodes_by_scope_fetched [OF ncs info])
  have det: "(\<forall>iter'. iteration_order iter' \<longrightarrow>
                 group_nodes_by_scope E iter' client node_configs replication_info = Inr ?groups) \<and>
              (\<forall>iter' ncs'. iteration_order iter' \<and> mset ncs' = mset ncs \<longrightarrow>
                 group_nodes_by_scope E iter' client (Some ncs') (Some info) = Inr ?groups)"
    if d: "distinct (map nc_node_index ncs)"
  proof (intro conjI allI impI)
    fix iter' :: "'ad NodeID list \<Rightarrow> 'ad NodeID list"
    assume io': "iteration_order iter'"
    have "group_nodes E iter' ?scope ncs = group_nodes E iter ?scope ncs"
      by (rule group_nodes_permutation [OF io io' d refl])
    with r show "group_nodes_by_scope E iter' client node_configs replication_info = Inr ?groups"
      by (simp only: group_nodes_by_scope_fetched [OF ncs info])
  next
    fix iter' :: "'ad NodeID list \<Rightarrow> 'ad NodeID list" and ncs' :: "('sc, 'ad) NodeConfig list"
    assume "iteration_order iter' \<and> mset ncs' = mset ncs"
    then have io': "iteration_order iter'" and m: "mset ncs' = mset ncs" by simp_all
    have f: "fetch_node_configs client (Some ncs') = Inr ncs'"
      "fetch_replication_info client (Some info) = Inr info"
      by (simp_all add: fetch_node_configs_def fetch_replication_info_def)
    have "group_nodes E iter' ?scope ncs' = group_nodes E iter ?scope ncs"
      by (rule group_nodes_permutation [OF io io' d m])
    with r show "group_nodes_by_scope E iter' client (Some ncs') (Some info) = Inr ?groups"
      by (simp only: group_nodes_by_scope_fetched [OF f])
  qed
  from here g s det show ?thesis by blast
qed

theorem group_nodes_by_scope_canonical_order_witness:
  "\<exists>groups. group_nodes_by_scope scenario_scopes id scenario_client None None = Inr groups \<and>
     (\<forall>g \<in> set groups. sorted (map node_index g)) \<and>
     sorted (map (\<lambda>g. node_index (hd g)) groups) \<and>
     group_nodes_by_scope scenario_scopes rev scenario_client None None = Inr groups \<and>
     group_nodes_by_scope scenario_scopes rev scenario_client
       (Some [node_A, node_B, node_C, node_D]) (Some (scope_info S_RACK)) = Inr groups"
proof -
  have d: "distinct (map nc_node_index [node_D, node_B, node_A, node_C])"
    by (simp add: scenario_indices)
  have r: "iteration_order (rev :: string NodeID list \<Rightarrow> string NodeID list)"
    by (rule iteration_order_rev)
  have m: "mset [node_A, node_B, node_C, node_D] = mset [node_D, node_B, node_A, node_C]"
    by simp
  from group_nodes_by_scope_canonical_order
         [OF iteration_order_id scenario_fetch(1) scenario_fetch(3), of scenario_scopes]
  obtain groups where
    g: "group_nodes_by_scope scenario_scopes id scenario_client None None = Inr groups"
      "\<forall>g \<in> set groups. g \<noteq> [] \<and> sorted (map node_index g) \<and>
                              (\<forall>x \<in> set g. node_index (hd g) \<le> node_index x)"
      "sorted (map (\<lambda>g. node_index (hd g)) groups)"
    and det: "distinct (map nc_node_index [node_D, node_B, node_A, node_C]) \<longrightarrow>
       (\<forall>iter'. iteration_order iter' \<longrightarrow>
              group_nodes_by_scope scenario_scopes iter' scenario_client None None = Inr groups) \<and>
       (\<forall>iter' ncs'. iteration_order iter' \<and> mset ncs' = mset [node_D, node_B, node_A, node_C] \<longrightarrow>
              group_nodes_by_scope scenario_scopes iter' scenario_client (Some ncs')
                (Some (scope_info S_RACK)) = Inr groups)"
    by blast
  from det d have
    i: "\<forall>iter'. iteration_order iter' \<longrightarrow>
              group_nodes_by_scope scenario_scopes iter' scenario_client None None = Inr groups"
    and p: "\<forall>iter' ncs'. iteration_order iter' \<and> mset ncs' = mset [node_D, node_B, node_A, node_C] \<longrightarrow>
              group_nodes_by_scope scenario_scopes iter' scenario_client (Some ncs')
                (Some (scope_info S_RACK)) = Inr groups"
    by blast+
  from i r have 1: "group_nodes_by_scope scenario_scopes rev scenario_client None None = Inr groups"
    by blast
  from p r m have 2: "group_nodes_by_scope scenario_scopes rev scenario_client
       (Some [node_A, node_B, node_C, node_D]) (Some (scope_info S_RACK)) = Inr groups"
    by blast
  from g(2) have 3: "\<forall>g \<in> set groups. sorted (map node_index g)" by blast
  from g(1) 3 g(3) 1 2 show ?thesis by blast
qed

lemma RACK_kept:
  "RACK \<in> set (members E) \<Longrightarrow> RACK \<in> set (kept_levels E RACK)"
  by (simp add: kept_levels_def sorted_scopes_def)

lemma located_fields [simp]:
  "nc_node_index (located RACK DC rack dc i a n) = i"
  "nc_data_address (located RACK DC rack dc i a n) = a"
  "nc_name (located RACK DC rack dc i a n) = n"
  "nc_location_per_scope (located RACK DC rack dc i a n) = [RACK \<mapsto> rack, DC \<mapsto> dc]"
  by (simp_all add: located_def)

lemma location_of_located_eq:
  "scope \<noteq> NODE E \<Longrightarrow>
   location_of E scope (located RACK DC rack dc i a n)
     = location_of E scope (located RACK DC rack dc i' a' n')"
  by (simp add: location_of_def)

lemma location_of_located_neq:
  assumes "RACK \<in> set (members E)" and "RACK \<noteq> NODE E" and "DC \<noteq> RACK" and "rack \<noteq> rack'"
  shows "location_of E RACK (located RACK DC rack dc i a n)
           \<noteq> location_of E RACK (located RACK DC rack' dc' i' a' n')"
proof
  assume "location_of E RACK (located RACK DC rack dc i a n)
            = location_of E RACK (located RACK DC rack' dc' i' a' n')"
  with assms(2) have
    "map (\<lambda>l. dict_get [RACK \<mapsto> rack, DC \<mapsto> dc] l '''') (kept_levels E RACK)
       = map (\<lambda>l. dict_get [RACK \<mapsto> rack', DC \<mapsto> dc'] l '''') (kept_levels E RACK)"
    by (simp add: location_of_kept_levels)
  then have "\<forall>l \<in> set (kept_levels E RACK).
               dict_get [RACK \<mapsto> rack, DC \<mapsto> dc] l ''''
                 = dict_get [RACK \<mapsto> rack', DC \<mapsto> dc'] l ''''"
    by (simp only: map_eq_conv)
  with RACK_kept [OF assms(1)] have
    "dict_get [RACK \<mapsto> rack, DC \<mapsto> dc] RACK '''' = dict_get [RACK \<mapsto> rack', DC \<mapsto> dc'] RACK ''''"
    by (rule_tac bspec)
  with assms(3,4) show False by (simp add: dict_get_def)
qed

lemma location_of_located_two_levels:
  assumes "RACK \<noteq> NODE E" and "DC \<noteq> RACK" and "kept_levels E RACK = [DC, RACK]"
  shows "location_of E RACK (located RACK DC rack dc i a n) = Labels [dc, rack]"
  using assms by (simp add: location_of_kept_levels dict_get_def)

lemma sort_two:
  fixes a b :: "'ad NodeID"
  assumes io: "iteration_order iter" and lt: "node_index a < node_index b"
  shows "sort_key node_index (iter [a, b]) = [a, b]"
proof (rule sort_key_inj_key_eq)
  from io show "mset (iter [a, b]) = mset [a, b]" by (rule mset_iteration)
  have "set (iter [a, b]) = set [a, b]" by (rule set_iteration [OF io])
  then have "set (iter [a, b]) = {a, b}" by simp
  with lt show "inj_on node_index (set (iter [a, b]))" by (auto simp: inj_on_def)
  from lt show "sorted (map node_index [a, b])" by simp
qed

lemma group_nodes_scenario:
  fixes A B C D :: "('sc, 'ad) NodeConfig"
  assumes io: "iteration_order iter"
    and E: "RACK \<in> set (members E)" "RACK \<noteq> NODE E" "DC \<noteq> RACK"
    and lt: "iA < iB" "iB < iC" "iC < iD"
    and A: "A = located RACK DC ''r1'' ''d1'' iA aA nA"
    and B: "B = located RACK DC ''r1'' ''d1'' iB aB nB"
    and C: "C = located RACK DC ''r2'' ''d1'' iC aC nC"
    and D: "D = located RACK DC ''r3'' ''d2'' iD aD nD"
  shows "group_nodes E iter RACK [A, B, C, D]
           = Inr [[node_id_of A, node_id_of B], [node_id_of C], [node_id_of D]]"
proof -
  let ?k = "location_of E RACK"
  have AB: "?k B = ?k A" unfolding A B by (rule location_of_located_eq [OF E(2)])
  have AC: "?k C \<noteq> ?k A" unfolding A C
    by (rule location_of_located_neq [OF E]) simp
  have AD: "?k D \<noteq> ?k A" unfolding A D
    by (rule location_of_located_neq [OF E]) simp
  have CD: "?k D \<noteq> ?k C" unfolding C D
    by (rule location_of_located_neq [OF E]) simp
  have idx: "node_index (node_id_of A) = iA" "node_index (node_id_of B) = iB"
    "node_index (node_id_of C) = iC" "node_index (node_id_of D) = iD"
    by (simp_all add: A B C D)
  have ab: "node_id_of B \<noteq> node_id_of A"
  proof
    assume "node_id_of B = node_id_of A"
    then have "node_index (node_id_of B) = node_index (node_id_of A)" by (rule arg_cong)
    with lt(1) show False by (simp add: A B)
  qed
  have 1: "defaultdict_add (?k A) (node_id_of A) [] = [(?k A, [node_id_of A])]"
    by (simp add: set_add_def)
  have 2: "defaultdict_add (?k B) (node_id_of B) [(?k A, [node_id_of A])]
             = [(?k A, [node_id_of A, node_id_of B])]"
    using AB ab by (simp add: set_add_def)
  have 3: "defaultdict_add (?k C) (node_id_of C) [(?k A, [node_id_of A, node_id_of B])]
             = [(?k A, [node_id_of A, node_id_of B]), (?k C, [node_id_of C])]"
    using AC by (simp add: set_add_def)
  have 4: "defaultdict_add (?k D) (node_id_of D)
             [(?k A, [node_id_of A, node_id_of B]), (?k C, [node_id_of C])]
             = [(?k A, [node_id_of A, node_id_of B]), (?k C, [node_id_of C]),
                (?k D, [node_id_of D])]"
    using AD CD by (simp add: set_add_def)
  have acc: "accumulate E RACK [A, B, C, D] []
               = [(?k A, [node_id_of A, node_id_of B]), (?k C, [node_id_of C]),
                  (?k D, [node_id_of D])]"
    by (simp only: accumulate.simps 1 2 3 4)
  have two: "sort_key node_index (iter [node_id_of A, node_id_of B])
               = [node_id_of A, node_id_of B]"
    by (rule sort_two [OF io]) (simp add: A B lt)
  have gs: "map (\<lambda>(k, v). sort_key node_index (iter v)) (accumulate E RACK [A, B, C, D] [])
              = [[node_id_of A, node_id_of B], [node_id_of C], [node_id_of D]]"
    unfolding acc by (simp add: two iteration_singleton [OF io])
  have "sorted (map (\<lambda>x. node_index (hd x))
                  [[node_id_of A, node_id_of B], [node_id_of C], [node_id_of D]])"
    using lt by (simp add: A B C D)
  then have "sort_key (\<lambda>x. node_index (hd x))
               [[node_id_of A, node_id_of B], [node_id_of C], [node_id_of D]]
             = [[node_id_of A, node_id_of B], [node_id_of C], [node_id_of D]]"
    by (rule sort_key_id_if_sorted)
  then show ?thesis
    by (simp only: group_nodes_Inr [OF io] gs)
qed

text \<open>
  C7.  Four nodes \<open>A\<close>, \<open>B\<close>, \<open>C\<close>, \<open>D\<close> with ascending node indices and the locations
  rack \<open>r1\<close> in data centre \<open>d1\<close> (\<open>A\<close> and \<open>B\<close>), rack \<open>r2\<close> in \<open>d1\<close> (\<open>C\<close>) and rack
  \<open>r3\<close> in \<open>d2\<close> (\<open>D\<close>), listed in any order, with the target scope \<open>RACK\<close>:
  \<open>group_nodes_by_scope\<close> returns exactly the three groups \<open>(A, B)\<close>, \<open>(C)\<close>, \<open>(D)\<close> in
  this order, the order of the smallest node index of each group.  \<open>A\<close> and \<open>B\<close> have the
  same key, and the keys of \<open>A\<close>, \<open>C\<close> and \<open>D\<close> differ.  When the levels at or above
  \<open>RACK\<close> are the data centre and the rack, the keys are \<open>(d1, r1)\<close>, \<open>(d1, r2)\<close> and
  \<open>(d2, r3)\<close>.  The enumeration is any enumeration in which \<open>RACK\<close> is a member other
  than \<open>NODE\<close>.
\<close>

theorem group_nodes_by_scope_scenario:
  fixes A B C D :: "('sc, 'ad) NodeConfig"
  assumes io: "iteration_order iter"
    and E: "RACK \<in> set (members E)" "RACK \<noteq> NODE E" "DC \<noteq> RACK"
    and lt: "iA < iB" "iB < iC" "iC < iD"
    and A: "A = located RACK DC ''r1'' ''d1'' iA aA nA"
    and B: "B = located RACK DC ''r1'' ''d1'' iB aB nB"
    and C: "C = located RACK DC ''r2'' ''d1'' iC aC nC"
    and D: "D = located RACK DC ''r3'' ''d2'' iD aD nD"
    and ncs: "fetch_node_configs client node_configs = Inr ncs" "mset ncs = {#A, B, C, D#}"
    and info: "fetch_replication_info client replication_info = Inr info"
              "domain (tolerable_failure_domains info) = RACK"
  shows "group_nodes_by_scope E iter client node_configs replication_info
           = Inr [[node_id_of A, node_id_of B], [node_id_of C], [node_id_of D]] \<and>
         location_of E RACK A = location_of E RACK B \<and>
         location_of E RACK A \<noteq> location_of E RACK C \<and>
         location_of E RACK A \<noteq> location_of E RACK D \<and>
         location_of E RACK C \<noteq> location_of E RACK D \<and>
         (kept_levels E RACK = [DC, RACK] \<longrightarrow>
            location_of E RACK A = Labels [''d1'', ''r1''] \<and>
            location_of E RACK B = Labels [''d1'', ''r1''] \<and>
            location_of E RACK C = Labels [''d1'', ''r2''] \<and>
            location_of E RACK D = Labels [''d2'', ''r3''])"
proof -
  have d: "distinct (map nc_node_index [A, B, C, D])"
    using lt by (simp add: A B C D)
  have m: "mset ncs = mset [A, B, C, D]" using ncs(2) by simp
  have "group_nodes E iter RACK ncs = group_nodes E iter RACK [A, B, C, D]"
    by (rule group_nodes_permutation [OF io io d m])
  also have "\<dots> = Inr [[node_id_of A, node_id_of B], [node_id_of C], [node_id_of D]]"
    by (rule group_nodes_scenario [OF io E lt A B C D])
  finally have 1: "group_nodes_by_scope E iter client node_configs replication_info
           = Inr [[node_id_of A, node_id_of B], [node_id_of C], [node_id_of D]]"
    by (simp only: group_nodes_by_scope_fetched [OF ncs(1) info(1)] info(2))
  have 2: "location_of E RACK A = location_of E RACK B"
    unfolding A B by (rule location_of_located_eq [OF E(2)])
  have 3: "location_of E RACK A \<noteq> location_of E RACK C"
    unfolding A C by (rule location_of_located_neq [OF E]) simp
  have 4: "location_of E RACK A \<noteq> location_of E RACK D"
    unfolding A D by (rule location_of_located_neq [OF E]) simp
  have 5: "location_of E RACK C \<noteq> location_of E RACK D"
    unfolding C D by (rule location_of_located_neq [OF E]) simp
  have 6: "location_of E RACK A = Labels [''d1'', ''r1''] \<and>
            location_of E RACK B = Labels [''d1'', ''r1''] \<and>
            location_of E RACK C = Labels [''d1'', ''r2''] \<and>
            location_of E RACK D = Labels [''d2'', ''r3'']"
    if "kept_levels E RACK = [DC, RACK]"
    unfolding A B C D by (simp only: location_of_located_two_levels [OF E(2,3) that])
  from 1 2 3 4 5 6 show ?thesis by blast
qed

theorem group_nodes_by_scope_scenario_witness:
  "group_nodes_by_scope scenario_scopes rev scenario_client None None
     = Inr [[node_id_of node_A, node_id_of node_B], [node_id_of node_C], [node_id_of node_D]] \<and>
   location_of scenario_scopes S_RACK node_A = Labels [''d1'', ''r1''] \<and>
   location_of scenario_scopes S_RACK node_B = Labels [''d1'', ''r1''] \<and>
   location_of scenario_scopes S_RACK node_C = Labels [''d1'', ''r2''] \<and>
   location_of scenario_scopes S_RACK node_D = Labels [''d2'', ''r3'']"
proof -
  have E: "S_RACK \<in> set (members scenario_scopes)" "S_RACK \<noteq> NODE scenario_scopes"
    "S_DC \<noteq> S_RACK"
    by (simp_all add: scenario_scopes_def)
  have lt: "(0::int) < 1" "(1::int) < 2" "(2::int) < 3" by simp_all
  have m: "mset [node_D, node_B, node_A, node_C] = {#node_A, node_B, node_C, node_D#}"
    by simp
  have k: "kept_levels scenario_scopes S_RACK = [S_DC, S_RACK]"
    by (simp add: kept_levels_def sorted_scopes_def scenario_scopes_def)
  from group_nodes_by_scope_scenario
         [OF iteration_order_rev E lt node_A_def node_B_def node_C_def node_D_def
             scenario_fetch(1) m scenario_fetch(3) scenario_domain] k
  show ?thesis by blast
qed

end
